theory Spec2Isabelle
  imports Main "HOL-Library.AList"
begin

section \<open>Python values used by the Sudoku engine\<close>

text \<open>
  The engine lives twice in the repository, as \<^verbatim>\<open>src/python/sudoku.py\<close> and as
  \<^verbatim>\<open>src/backend/sudoku_ms.py\<close>. The two copies agree on every function modelled here
  except \<^verbatim>\<open>eliminate_digit\<close>, which is therefore modelled twice.

  Strings are lists of 8-bit code points. On these, the regular expression class
  \<^verbatim>\<open>\d\<close> is exactly \<^verbatim>\<open>0\<close>..\<^verbatim>\<open>9\<close>. Python integers are unbounded: \<^typ>\<open>int\<close>.
  The interpreter is taken with its default limit on the number of digits that
  \<^verbatim>\<open>int()\<close> converts.
\<close>

text \<open>Every \<^verbatim>\<open>raise\<close> of the source, by its message, and the three built-in errors
  the source can run into (\<^verbatim>\<open>int()\<close> on a run of digits above the interpreter's limit,
  a missing dictionary key, \<^verbatim>\<open>unit_ref[0]\<close> on the empty string).
  All but the last two are \<^verbatim>\<open>ValueError\<close> in the source.\<close>

datatype error =
    InvalidCellReference    \<comment> \<open>\<^verbatim>\<open>ValueError("Invalid cell reference: ...")\<close>\<close>
  | CellNotFound            \<comment> \<open>\<^verbatim>\<open>ValueError("Cell ... not found ...")\<close>\<close>
  | AlreadyAssigned         \<comment> \<open>\<^verbatim>\<open>ValueError("Cell ... is already assigned/solved ...")\<close>\<close>
  | NotACandidate           \<comment> \<open>\<^verbatim>\<open>ValueError("Digit ... is not a candidate ...")\<close>\<close>
  | CannotEliminateSolved   \<comment> \<open>\<^verbatim>\<open>ValueError("Cannot eliminate digit ...")\<close>\<close>
  | InvalidUnitReference    \<comment> \<open>\<^verbatim>\<open>ValueError("Invalid unit reference: ...")\<close>\<close>
  | BadUnitType             \<comment> \<open>\<^verbatim>\<open>ValueError("Unit reference must start with ...")\<close>\<close>
  | IntDigitsLimit          \<comment> \<open>\<^verbatim>\<open>ValueError("Exceeds the limit (4300 digits) ...")\<close>\<close>
  | KeyError
  | IndexError

subsection \<open>Decimal digits, \<^verbatim>\<open>str(int)\<close> and \<^verbatim>\<open>int(str)\<close>\<close>

definition is_digit :: "char \<Rightarrow> bool" where
  "is_digit ch = (48 \<le> (of_char ch :: nat) \<and> (of_char ch :: nat) \<le> 57)"

definition digit_val :: "char \<Rightarrow> int" where
  "digit_val ch = int (of_char ch) - 48"

definition digit_char :: "nat \<Rightarrow> char" where
  "digit_char n = char_of (48 + n)"

text \<open>The decimal rendering of a natural number, most significant digit first.\<close>

fun str_nat :: "nat \<Rightarrow> string" where
  "str_nat n = (if n < 10 then [digit_char n] else str_nat (n div 10) @ [digit_char (n mod 10)])"

declare str_nat.simps [simp del]

text \<open>\<^verbatim>\<open>str(i)\<close>, as the f-strings \<^verbatim>\<open>f"R{r}C{c}"\<close> render an integer.\<close>

definition py_str :: "int \<Rightarrow> string" where
  "py_str i = (if i < 0 then CHR ''-'' # str_nat (nat (- i)) else str_nat (nat i))"

text \<open>The value of a run of decimal digits (what \<^verbatim>\<open>int\<close> returns on a regex group
  \<^verbatim>\<open>\d+\<close>).\<close>

definition int_of_digits :: "string \<Rightarrow> int" where
  "int_of_digits ds = foldl (\<lambda>acc ch. 10 * acc + digit_val ch) 0 ds"

text \<open>Whitespace that \<^verbatim>\<open>int()\<close> strips from both ends of its argument: the six ASCII
  ones and, above 127, the two that Unicode counts as whitespace. The separators 28 to 31
  are left in place and make the text invalid.\<close>

definition is_space :: "char \<Rightarrow> bool" where
  "is_space ch = ((of_char ch :: nat) \<in> {9, 10, 11, 12, 13, 32, 133, 160})"

definition strip :: "string \<Rightarrow> string" where
  "strip s = rev (dropWhile is_space (rev (dropWhile is_space s)))"

text \<open>Digits with single underscores between them: the body of a decimal literal.
  The flag says whether the previous character was a digit.\<close>

fun literal_body :: "bool \<Rightarrow> string \<Rightarrow> bool" where
  "literal_body prev [] = prev"
| "literal_body prev (ch # s) =
     (if is_digit ch then literal_body True s
      else if ch = CHR ''_'' \<and> prev then (s \<noteq> [] \<and> is_digit (hd s) \<and> literal_body False s)
      else False)"

text \<open>\<^verbatim>\<open>sys.get_int_max_str_digits()\<close>, by default: \<^verbatim>\<open>int()\<close> raises
  \<^verbatim>\<open>ValueError\<close> on a text with more digits, leading zeros counted, underscores not.\<close>

definition max_str_digits :: nat where
  "max_str_digits = 4300"

text \<open>\<^verbatim>\<open>int(s)\<close> in base ten: \<^const>\<open>None\<close> is the \<^verbatim>\<open>ValueError\<close>, for a text that is
  not an integer literal or that has too many digits.\<close>

definition py_int :: "string \<Rightarrow> int option" where
  "py_int s =
     (let t = strip s;
          neg = (t \<noteq> [] \<and> hd t = CHR ''-'');
          body = (if t \<noteq> [] \<and> (hd t = CHR ''-'' \<or> hd t = CHR ''+'') then tl t else t)
      in if literal_body False body \<and> length (filter is_digit body) \<le> max_str_digits
         then Some ((if neg then - 1 else 1) * int_of_digits (filter is_digit body))
         else None)"

text \<open>\<^verbatim>\<open>ch.upper()\<close> on the ASCII letters. No other code point is mapped to
  \<^verbatim>\<open>R\<close>, \<^verbatim>\<open>C\<close> or \<^verbatim>\<open>B\<close>, the only results the source compares with.\<close>

definition upper :: "char \<Rightarrow> char" where
  "upper ch = (if 97 \<le> (of_char ch :: nat) \<and> (of_char ch :: nat) \<le> 122
               then char_of ((of_char ch :: nat) - 32) else ch)"

section \<open>Grid geometry\<close>

text \<open>The key \<^verbatim>\<open>f"R{r}C{c}"\<close>.\<close>

definition cell_key :: "int \<Rightarrow> int \<Rightarrow> string" where
  "cell_key r c = CHR ''R'' # py_str r @ CHR ''C'' # py_str c"

text \<open>\<^verbatim>\<open>re.match(r"R(\d+)C(\d+)", cell_ref)\<close>: the pattern is anchored at the start
  only, each group is a maximal run of digits, and whatever follows the second run is
  ignored. The result is the two groups.\<close>

definition re_match_cell :: "string \<Rightarrow> (string \<times> string) option" where
  "re_match_cell s =
     (case s of
        [] \<Rightarrow> None
      | ch # s1 \<Rightarrow>
          if ch \<noteq> CHR ''R'' then None
          else let g1 = takeWhile is_digit s1; s2 = dropWhile is_digit s1 in
            if g1 = [] then None
            else (case s2 of
                    [] \<Rightarrow> None
                  | ch2 # s3 \<Rightarrow>
                      if ch2 \<noteq> CHR ''C'' then None
                      else let g2 = takeWhile is_digit s3 in
                        if g2 = [] then None else Some (g1, g2)))"

record units =
  row :: "string list"
  col :: "string list"
  block :: "string list"

text \<open>\<^verbatim>\<open>range(a, b)\<close> is \<open>[a..b - 1]\<close>. The two calls of \<^verbatim>\<open>int()\<close> are on runs of
  digits, so they can only fail on a run that is too long; that \<^verbatim>\<open>ValueError\<close> is not
  caught.\<close>

definition get_units_for_cell :: "string \<Rightarrow> error + units" where
  "get_units_for_cell cell_ref =
     (case re_match_cell cell_ref of
        None \<Rightarrow> Inl InvalidCellReference
      | Some (g1, g2) \<Rightarrow>
          if max_str_digits < length g1 \<or> max_str_digits < length g2 then Inl IntDigitsLimit
          else
          let row_num = int_of_digits g1;
              col_num = int_of_digits g2;
              row_unit = map (\<lambda>c. cell_key row_num c) [1..9];
              col_unit = map (\<lambda>r. cell_key r col_num) [1..9];
              block_row = (row_num - 1) div 3;
              block_col = (col_num - 1) div 3;
              row_start = block_row * 3 + 1;
              col_start = block_col * 3 + 1;
              block_unit = concat (map (\<lambda>r. map (\<lambda>c. cell_key r c) [col_start..col_start + 3 - 1])
                                       [row_start..row_start + 3 - 1])
          in Inr \<lparr>row = row_unit, col = col_unit, block = block_unit\<rparr>)"

text \<open>\<^verbatim>\<open>units.values()\<close>: the three lists in insertion order.\<close>

definition units_values :: "units \<Rightarrow> string list list" where
  "units_values u = [row u, col u, block u]"

section \<open>The cell store\<close>

text \<open>A cell is the dictionary \<^verbatim>\<open>{"value": ..., "candidates": [...]}\<close> that
  \<^verbatim>\<open>SudokuCell(...).dict()\<close> produces: \<^verbatim>\<open>value\<close> is \<^verbatim>\<open>None\<close> or an integer,
  \<^verbatim>\<open>candidates\<close> is a list of integers.\<close>

record SudokuCell =
  cvalue :: "int option"
  candidates :: "int list"

text \<open>A puzzle is a Python dictionary from cell keys to cells. It keeps its insertion
  order, which the loops over \<^verbatim>\<open>puzzle.items()\<close> follow; storing under an existing key
  keeps the key's position (\<^const>\<open>AList.update\<close>). The cells are separate objects (both
  loaders build each one afresh), so mutating one cell in place is an update of its entry.\<close>

type_synonym puzzle = "(string \<times> SudokuCell) list"

section \<open>Candidate engine\<close>

text \<open>The two inner loops of \<^verbatim>\<open>compute_candidates\<close>, over the peers of all three
  units in turn: \<^verbatim>\<open>puzzle[peer]\<close> raises \<^verbatim>\<open>KeyError\<close> on a key the puzzle lacks.\<close>

fun collect_used :: "puzzle \<Rightarrow> string list \<Rightarrow> int set \<Rightarrow> error + int set" where
  "collect_used p [] used_digits = Inr used_digits"
| "collect_used p (peer # peers) used_digits =
     (case map_of p peer of
        None \<Rightarrow> Inl KeyError
      | Some peer_cell \<Rightarrow>
          (case cvalue peer_cell of
             None \<Rightarrow> collect_used p peers used_digits
           | Some peer_value \<Rightarrow> collect_used p peers (insert peer_value used_digits)))"

text \<open>The outer loop, over the keys in dictionary order. The keys are the puzzle's own,
  so the first \<^const>\<open>None\<close> branch is never taken from \<open>compute_candidates\<close>.\<close>

fun compute_loop :: "puzzle \<Rightarrow> string list \<Rightarrow> error + puzzle" where
  "compute_loop p [] = Inr p"
| "compute_loop p (cell_ref # rest) =
     (case map_of p cell_ref of
        None \<Rightarrow> Inl KeyError
      | Some cell \<Rightarrow>
          if cvalue cell \<noteq> None
          then compute_loop (AList.update cell_ref (cell\<lparr>candidates := []\<rparr>) p) rest
          else (case get_units_for_cell cell_ref of
                  Inl e \<Rightarrow> Inl e
                | Inr us \<Rightarrow>
                    (case collect_used p (concat (units_values us)) {} of
                       Inl e \<Rightarrow> Inl e
                     | Inr used_digits \<Rightarrow>
                         compute_loop
                           (AList.update cell_ref
                              (cell\<lparr>candidates := filter (\<lambda>d. d \<notin> used_digits) [1..9]\<rparr>) p)
                           rest)))"

definition compute_candidates :: "puzzle \<Rightarrow> error + puzzle" where
  "compute_candidates p = compute_loop p (map fst p)"

section \<open>Mutation engine\<close>

text \<open>The loop of \<^verbatim>\<open>assign_digit\<close> over the peers, with the recursive call as the
  parameter \<open>rec\<close>. \<^verbatim>\<open>list.remove(x)\<close> deletes the first occurrence: \<^const>\<open>remove1\<close>.
  \<^const>\<open>None\<close> is a call that has not returned.\<close>

fun assign_peers ::
  "(puzzle \<Rightarrow> string \<Rightarrow> int \<Rightarrow> (error + puzzle) option) \<Rightarrow>
     puzzle \<Rightarrow> string \<Rightarrow> int \<Rightarrow> string list \<Rightarrow> (error + puzzle) option" where
  "assign_peers rec p cell_ref digit [] = Some (Inr p)"
| "assign_peers rec p cell_ref digit (peer_ref # rest) =
     (if peer_ref = cell_ref then assign_peers rec p cell_ref digit rest
      else (case map_of p peer_ref of
              None \<Rightarrow> Some (Inl KeyError)
            | Some peer \<Rightarrow>
                if cvalue peer = None \<and> digit \<in> set (candidates peer)
                then let cs = remove1 digit (candidates peer);
                         p1 = AList.update peer_ref (peer\<lparr>candidates := cs\<rparr>) p
                     in if length cs = 1
                        then (case rec p1 peer_ref (cs ! 0) of
                                None \<Rightarrow> None
                              | Some (Inl e) \<Rightarrow> Some (Inl e)
                              | Some (Inr p2) \<Rightarrow> assign_peers rec p2 cell_ref digit rest)
                        else assign_peers rec p1 cell_ref digit rest
                else assign_peers rec p cell_ref digit rest))"

text \<open>\<^verbatim>\<open>assign_digit\<close>. The first argument bounds the depth of the recursion: a call
  at depth bound \<open>0\<close> does not return, a call at bound \<open>Suc n\<close> makes its recursive
  calls at bound \<open>n\<close>.\<close>

fun assign_digit :: "nat \<Rightarrow> puzzle \<Rightarrow> string \<Rightarrow> int \<Rightarrow> (error + puzzle) option" where
  "assign_digit 0 p cell_ref digit = None"
| "assign_digit (Suc n) p cell_ref digit =
     (case map_of p cell_ref of
        None \<Rightarrow> Some (Inl CellNotFound)
      | Some cell \<Rightarrow>
          if cvalue cell \<noteq> None then Some (Inl AlreadyAssigned)
          else if digit \<notin> set (candidates cell) then Some (Inl NotACandidate)
          else let p1 = AList.update cell_ref (cell\<lparr>cvalue := Some digit, candidates := []\<rparr>) p
               in (case get_units_for_cell cell_ref of
                     Inl e \<Rightarrow> Some (Inl e)
                   | Inr us \<Rightarrow>
                       assign_peers (assign_digit n) p1 cell_ref digit (concat (units_values us))))"

text \<open>\<^verbatim>\<open>eliminate_digit\<close> of \<^verbatim>\<open>src/backend/sudoku_ms.py\<close>.\<close>

definition eliminate_digit :: "nat \<Rightarrow> puzzle \<Rightarrow> string \<Rightarrow> int \<Rightarrow> (error + puzzle) option" where
  "eliminate_digit n p cell_ref digit =
     (case map_of p cell_ref of
        None \<Rightarrow> Some (Inl CellNotFound)
      | Some cell \<Rightarrow>
          if cvalue cell \<noteq> None then Some (Inl CannotEliminateSolved)
          else if digit \<in> set (candidates cell)
          then let cs = remove1 digit (candidates cell);
                   p1 = AList.update cell_ref (cell\<lparr>candidates := cs\<rparr>) p
               in if length cs = 1 then assign_digit n p1 cell_ref (cs ! 0)
                  else Some (Inr p1)
          else Some (Inr p))"

text \<open>\<^verbatim>\<open>eliminate_digit\<close> of \<^verbatim>\<open>src/python/sudoku.py\<close>: it never calls
  \<^verbatim>\<open>assign_digit\<close>.\<close>

definition eliminate_digit_py :: "puzzle \<Rightarrow> string \<Rightarrow> int \<Rightarrow> error + puzzle" where
  "eliminate_digit_py p cell_ref digit =
     (case map_of p cell_ref of
        None \<Rightarrow> Inl CellNotFound
      | Some cell \<Rightarrow>
          if cvalue cell \<noteq> None then Inl CannotEliminateSolved
          else if digit \<in> set (candidates cell)
          then Inr (AList.update cell_ref (cell\<lparr>candidates := remove1 digit (candidates cell)\<rparr>) p)
          else Inr p)"

text \<open>One sweep of \<^verbatim>\<open>scan_and_assign\<close> over the snapshot \<^verbatim>\<open>list(puzzle.items())\<close>:
  the keys are the snapshot's, the cells are read in their current state. The flag is
  \<^verbatim>\<open>progress\<close>; \<open>d\<close> bounds the depth of each \<^verbatim>\<open>assign_digit\<close>.\<close>

fun scan_sweep :: "nat \<Rightarrow> puzzle \<Rightarrow> string list \<Rightarrow> bool \<Rightarrow> (error + puzzle \<times> bool) option" where
  "scan_sweep d p [] progress = Some (Inr (p, progress))"
| "scan_sweep d p (cell_ref # rest) progress =
     (case map_of p cell_ref of
        None \<Rightarrow> Some (Inl KeyError)
      | Some cell \<Rightarrow>
          if cvalue cell = None \<and> length (candidates cell) = 1
          then (case assign_digit d p cell_ref (candidates cell ! 0) of
                  None \<Rightarrow> None
                | Some (Inl e) \<Rightarrow> Some (Inl e)
                | Some (Inr p1) \<Rightarrow> scan_sweep d p1 rest True)
          else scan_sweep d p rest progress)"

text \<open>The \<^verbatim>\<open>while progress\<close> loop; the second argument bounds the number of sweeps.\<close>

fun scan_and_assign :: "nat \<Rightarrow> nat \<Rightarrow> puzzle \<Rightarrow> (error + puzzle) option" where
  "scan_and_assign d 0 p = None"
| "scan_and_assign d (Suc n) p =
     (case scan_sweep d p (map fst p) False of
        None \<Rightarrow> None
      | Some (Inl e) \<Rightarrow> Some (Inl e)
      | Some (Inr (p1, progress)) \<Rightarrow> if progress then scan_and_assign d n p1 else Some (Inr p1))"

section \<open>Unit query\<close>

text \<open>\<^verbatim>\<open>{k: puzzle[k] for k in keys if k in puzzle}\<close>, in the order of \<open>keys\<close>.\<close>

definition select_keys :: "puzzle \<Rightarrow> string list \<Rightarrow> (string \<times> SudokuCell) list" where
  "select_keys p keys =
     concat (map (\<lambda>k. case map_of p k of None \<Rightarrow> [] | Some cell \<Rightarrow> [(k, cell)]) keys)"

text \<open>The keys \<^verbatim>\<open>get_unit\<close> computes from the unit type and the index.\<close>

definition unit_keys :: "char \<Rightarrow> int \<Rightarrow> error + string list" where
  "unit_keys unit_type idx =
     (if unit_type = CHR ''R'' then Inr (map (\<lambda>c. cell_key idx c) [1..9])
      else if unit_type = CHR ''C'' then Inr (map (\<lambda>r. cell_key r idx) [1..9])
      else if unit_type = CHR ''B'' then
        (let row_start = ((idx - 1) div 3) * 3 + 1;
             col_start = ((idx - 1) mod 3) * 3 + 1
         in Inr (concat (map (\<lambda>r. map (\<lambda>c. cell_key r c) [col_start..col_start + 3 - 1])
                             [row_start..row_start + 3 - 1])))
      else Inl BadUnitType)"

definition get_unit :: "puzzle \<Rightarrow> string \<Rightarrow> error + (string \<times> SudokuCell) list" where
  "get_unit p unit_ref =
     (case unit_ref of
        [] \<Rightarrow> Inl IndexError
      | ch # rest \<Rightarrow>
          let unit_type = upper ch in
          (case py_int rest of
             None \<Rightarrow> Inl InvalidUnitReference
           | Some idx \<Rightarrow>
               (case unit_keys unit_type idx of
                  Inl e \<Rightarrow> Inl e
                | Inr keys \<Rightarrow> Inr (select_keys p keys))))"

section \<open>Consistency checker\<close>

definition unit_refs :: "string list" where
  "unit_refs = map (\<lambda>i. CHR ''R'' # py_str i) [1..9] @
               map (\<lambda>i. CHR ''C'' # py_str i) [1..9] @
               map (\<lambda>i. CHR ''B'' # py_str i) [1..9]"

text \<open>The loop over one unit's cells with the dictionary \<^verbatim>\<open>seen\<close>; \<^const>\<open>False\<close> is
  the early \<^verbatim>\<open>return False\<close>.\<close>

fun seen_loop :: "(int \<rightharpoonup> string) \<Rightarrow> (string \<times> SudokuCell) list \<Rightarrow> bool" where
  "seen_loop seen [] = True"
| "seen_loop seen ((key, cell) # rest) =
     (case cvalue cell of
        None \<Rightarrow> seen_loop seen rest
      | Some digit \<Rightarrow> if seen digit \<noteq> None then False else seen_loop (seen(digit \<mapsto> key)) rest)"

fun strict_loop :: "puzzle \<Rightarrow> string list \<Rightarrow> error + bool" where
  "strict_loop p [] = Inr True"
| "strict_loop p (unit_ref # rest) =
     (case get_unit p unit_ref of
        Inl e \<Rightarrow> Inl e
      | Inr unit_cells \<Rightarrow> if seen_loop Map.empty unit_cells then strict_loop p rest else Inr False)"

definition check_strict_consistency :: "puzzle \<Rightarrow> error + bool" where
  "check_strict_consistency p = strict_loop p unit_refs"

text \<open>The body of the loop of \<^verbatim>\<open>check_candidate_consistency\<close> for one unit:
  \<^const>\<open>False\<close> is the early \<^verbatim>\<open>return False\<close>.\<close>

definition unit_covered :: "(string \<times> SudokuCell) list \<Rightarrow> bool" where
  "unit_covered unit_cells =
     (let solved_digits = set (List.map_filter cvalue (map snd unit_cells))
      in list_all (\<lambda>d. d \<in> solved_digits \<or>
                        list_ex (\<lambda>cell. cvalue cell = None \<and> d \<in> set (candidates cell))
                                (map snd unit_cells))
                  [1..9])"

fun candidate_loop :: "puzzle \<Rightarrow> string list \<Rightarrow> error + bool" where
  "candidate_loop p [] = Inr True"
| "candidate_loop p (unit_ref # rest) =
     (case get_unit p unit_ref of
        Inl e \<Rightarrow> Inl e
      | Inr unit_cells \<Rightarrow> if unit_covered unit_cells then candidate_loop p rest else Inr False)"

definition check_candidate_consistency :: "puzzle \<Rightarrow> error + bool" where
  "check_candidate_consistency p = candidate_loop p unit_refs"

section \<open>Facts about decimal strings and cell keys\<close>

lemma is_digit_digit_char: "n < 10 \<Longrightarrow> is_digit (digit_char n)"
  by (simp add: is_digit_def digit_char_def)

lemma digit_val_digit_char: "n < 10 \<Longrightarrow> digit_val (digit_char n) = int n"
  by (simp add: digit_val_def digit_char_def)

lemma str_nat_digits: "list_all is_digit (str_nat n)"
proof (induction n rule: str_nat.induct)
  case (1 n)
  show ?case
  proof (cases "n < 10")
    case True
    then show ?thesis by (subst str_nat.simps) (simp add: is_digit_digit_char)
  next
    case False
    with 1 show ?thesis by (subst str_nat.simps) (simp add: is_digit_digit_char)
  qed
qed

lemma str_nat_nonempty: "str_nat n \<noteq> []"
  by (subst str_nat.simps) simp

lemma int_of_digits_snoc:
  "int_of_digits (ds @ [ch]) = 10 * int_of_digits ds + digit_val ch"
  by (simp add: int_of_digits_def)

lemma int_of_digits_str_nat: "int_of_digits (str_nat n) = int n"
proof (induction n rule: str_nat.induct)
  case (1 n)
  show ?case
  proof (cases "n < 10")
    case True
    then show ?thesis
      by (subst str_nat.simps) (simp add: int_of_digits_def digit_val_digit_char)
  next
    case False
    have "int_of_digits (str_nat n) = 10 * int_of_digits (str_nat (n div 10)) + digit_val (digit_char (n mod 10))"
      using False by (subst str_nat.simps) (simp add: int_of_digits_snoc)
    also have "\<dots> = 10 * int (n div 10) + int (n mod 10)"
      using 1 False by (simp add: digit_val_digit_char)
    also have "\<dots> = int n" by presburger
    finally show ?thesis .
  qed
qed

lemma str_nat_inj: "str_nat a = str_nat b \<Longrightarrow> a = b"
  by (metis int_of_digits_str_nat of_nat_eq_iff)

lemma not_digit_minus: "\<not> is_digit CHR ''-''" by (simp add: is_digit_def)
lemma not_digit_C: "\<not> is_digit CHR ''C''" by (simp add: is_digit_def)

lemma hd_str_nat_digit: "is_digit (hd (str_nat n))"
  using str_nat_digits[of n] str_nat_nonempty[of n] by (cases "str_nat n") simp_all

lemma py_str_inj: "py_str a = py_str b \<Longrightarrow> a = b"
proof -
  assume eq: "py_str a = py_str b"
  have neq: "CHR ''-'' # xs \<noteq> str_nat n" for xs n
    using hd_str_nat_digit[of n] not_digit_minus by (metis list.sel(1))
  show ?thesis
  proof (cases "a < 0")
    case True
    then have "b < 0" using eq neq by (auto simp: py_str_def split: if_splits)
    with True eq have "nat (- a) = nat (- b)" by (auto simp: py_str_def dest: str_nat_inj)
    with True \<open>b < 0\<close> show ?thesis by simp
  next
    case False
    then have "\<not> b < 0" using eq neq[symmetric] by (auto simp: py_str_def split: if_splits)
    with False eq have "nat a = nat b" by (auto simp: py_str_def dest: str_nat_inj)
    with False \<open>\<not> b < 0\<close> show ?thesis by simp
  qed
qed

lemma py_str_no_C: "CHR ''C'' \<notin> set (py_str i)"
proof -
  have "CHR ''C'' \<notin> set (str_nat n)" for n
    using str_nat_digits[of n] not_digit_C by (auto simp: list_all_iff)
  then show ?thesis by (simp add: py_str_def)
qed

lemma split_at_first:
  "x \<notin> set a \<Longrightarrow> x \<notin> set a' \<Longrightarrow> a @ x # b = a' @ x # b' \<Longrightarrow> a = a' \<and> b = b'"
proof (induction a arbitrary: a')
  case Nil
  then show ?case by (cases a') auto
next
  case (Cons y a)
  then show ?case by (cases a') auto
qed

lemma cell_key_inj: "cell_key r c = cell_key r' c' \<Longrightarrow> r = r' \<and> c = c'"
  unfolding cell_key_def
  using split_at_first[OF py_str_no_C py_str_no_C, of r "py_str c" r' "py_str c'"]
  by (auto dest: py_str_inj)

lemma py_str_nonneg: "0 \<le> i \<Longrightarrow> py_str i = str_nat (nat i)"
  by (simp add: py_str_def)

lemma takeWhile_digits_stop:
  "list_all is_digit ds \<Longrightarrow> \<not> is_digit x \<Longrightarrow> takeWhile is_digit (ds @ x # rest) = ds"
  by (induction ds) auto

lemma dropWhile_digits_stop:
  "list_all is_digit ds \<Longrightarrow> \<not> is_digit x \<Longrightarrow> dropWhile is_digit (ds @ x # rest) = x # rest"
  by (induction ds) auto

lemma takeWhile_digits_all: "list_all is_digit ds \<Longrightarrow> takeWhile is_digit ds = ds"
  by (induction ds) auto

lemma re_match_cell_key:
  assumes "0 \<le> r" "0 \<le> c"
  shows "re_match_cell (cell_key r c) = Some (py_str r, py_str c)"
  using assms str_nat_digits str_nat_nonempty
  by (simp add: re_match_cell_def cell_key_def py_str_nonneg takeWhile_digits_stop
      dropWhile_digits_stop takeWhile_digits_all not_digit_C)

lemma int_of_digits_py_str: "0 \<le> i \<Longrightarrow> int_of_digits (py_str i) = i"
  by (simp add: py_str_nonneg int_of_digits_str_nat)

section \<open>The 81 cells\<close>

definition all_cell_refs :: "string list" where
  "all_cell_refs = concat (map (\<lambda>r. map (\<lambda>c. cell_key r c) [1..9]) [1..9])"

definition is_puzzle :: "puzzle \<Rightarrow> bool" where
  "is_puzzle p = (distinct (map fst p) \<and> set (map fst p) = set all_cell_refs)"

lemma mem_all_cell_refs:
  "k \<in> set all_cell_refs \<longleftrightarrow> (\<exists>r c. 1 \<le> r \<and> r \<le> 9 \<and> 1 \<le> c \<and> c \<le> 9 \<and> k = cell_key r c)"
proof -
  have "k \<in> set all_cell_refs \<longleftrightarrow> (\<exists>r\<in>{1..9}. \<exists>c\<in>{1..9}. k = cell_key r c)"
    unfolding all_cell_refs_def by (simp del: upto_rec_numeral) blast
  also have "\<dots> \<longleftrightarrow> (\<exists>r c. 1 \<le> r \<and> r \<le> 9 \<and> 1 \<le> c \<and> c \<le> 9 \<and> k = cell_key r c)"
    by (simp add: Bex_def)
  finally show ?thesis .
qed

lemma cell_key_in_grid [simp]:
  "cell_key r c \<in> set all_cell_refs \<longleftrightarrow> 1 \<le> r \<and> r \<le> 9 \<and> 1 \<le> c \<and> c \<le> 9"
  unfolding mem_all_cell_refs by (auto dest: cell_key_inj)

lemma distinct_all_cell_refs: "distinct all_cell_refs"
  unfolding all_cell_refs_def
  by (rule distinct_concat)
     (auto simp: distinct_map inj_on_def dest: cell_key_inj)

lemma length_all_cell_refs: "length all_cell_refs = 81"
  unfolding all_cell_refs_def by (simp add: length_concat comp_def sum_list_triv del: upto_rec_numeral)

lemma py_str_digit_length: "0 \<le> i \<Longrightarrow> i \<le> 9 \<Longrightarrow> length (py_str i) = 1"
  by (simp add: py_str_def str_nat.simps)

lemma get_units_for_cell_key:
  assumes "0 \<le> r" "r \<le> 9" "0 \<le> c" "c \<le> 9"
  shows "get_units_for_cell (cell_key r c) =
    Inr \<lparr>row = map (\<lambda>c'. cell_key r c') [1..9],
         col = map (\<lambda>r'. cell_key r' c) [1..9],
         block = concat (map (\<lambda>r'. map (\<lambda>c'. cell_key r' c') [(c - 1) div 3 * 3 + 1..(c - 1) div 3 * 3 + 1 + 3 - 1])
                          [(r - 1) div 3 * 3 + 1..(r - 1) div 3 * 3 + 1 + 3 - 1])\<rparr>"
  using assms
  by (simp add: get_units_for_cell_def re_match_cell_key int_of_digits_py_str Let_def
      py_str_digit_length max_str_digits_def)

lemma block_range:
  "1 \<le> (r::int) \<Longrightarrow> r \<le> 9 \<Longrightarrow> (r - 1) div 3 * 3 + 1 \<le> x \<Longrightarrow> x \<le> (r - 1) div 3 * 3 + 1 + 3 - 1 \<Longrightarrow> 1 \<le> x \<and> x \<le> 9"
  by presburger

lemma units_in_grid:
  assumes "1 \<le> r" "r \<le> 9" "1 \<le> c" "c \<le> 9"
    and "get_units_for_cell (cell_key r c) = Inr us"
  shows "set (concat (units_values us)) \<subseteq> set all_cell_refs"
proof -
  have us: "us = \<lparr>row = map (\<lambda>c'. cell_key r c') [1..9],
         col = map (\<lambda>r'. cell_key r' c) [1..9],
         block = concat (map (\<lambda>r'. map (\<lambda>c'. cell_key r' c') [(c - 1) div 3 * 3 + 1..(c - 1) div 3 * 3 + 1 + 3 - 1])
                          [(r - 1) div 3 * 3 + 1..(r - 1) div 3 * 3 + 1 + 3 - 1])\<rparr>"
    using assms get_units_for_cell_key[of r c] by simp
  have "k \<in> set all_cell_refs" if "k \<in> set (concat (units_values us))" for k
  proof -
    from that consider
        (row) c' where "1 \<le> c'" "c' \<le> 9" "k = cell_key r c'"
      | (col) r' where "1 \<le> r'" "r' \<le> 9" "k = cell_key r' c"
      | (block) r' c' where "(r - 1) div 3 * 3 + 1 \<le> r'" "r' \<le> (r - 1) div 3 * 3 + 1 + 3 - 1"
          "(c - 1) div 3 * 3 + 1 \<le> c'" "c' \<le> (c - 1) div 3 * 3 + 1 + 3 - 1" "k = cell_key r' c'"
      unfolding us units_values_def
      by (auto simp del: upto_rec_numeral)
    then show ?thesis
    proof cases
      case row
      then show ?thesis using assms(1,2) by simp
    next
      case col
      then show ?thesis using assms(3,4) by simp
    next
      case block
      then show ?thesis
        using block_range[OF assms(1,2) block(1,2)] block_range[OF assms(3,4) block(3,4)] by simp
    qed
  qed
  then show ?thesis by blast
qed

section \<open>How the mutation engine changes a puzzle\<close>

definition unsolved_count :: "puzzle \<Rightarrow> nat" where
  "unsolved_count p = length (filter (\<lambda>kc. cvalue (snd kc) = None) p)"

definition solved_cells_clear :: "puzzle \<Rightarrow> bool" where
  "solved_cells_clear p = list_all (\<lambda>kc. cvalue (snd kc) = None \<or> candidates (snd kc) = []) p"

definition solved_value :: "puzzle \<Rightarrow> string \<Rightarrow> int option" where
  "solved_value p k = (case map_of p k of None \<Rightarrow> None | Some cell \<Rightarrow> cvalue cell)"

inductive evolves :: "puzzle \<Rightarrow> puzzle \<Rightarrow> bool" where
  same: "evolves p p"
| narrow: "evolves p q \<Longrightarrow> map_of q k = Some cell \<Longrightarrow> cvalue cell = None \<Longrightarrow>
     evolves p (AList.update k (cell\<lparr>candidates := cs\<rparr>) q)"
| solve: "evolves p q \<Longrightarrow> map_of q k = Some cell \<Longrightarrow> cvalue cell = None \<Longrightarrow>
     evolves p (AList.update k (cell\<lparr>cvalue := Some d, candidates := []\<rparr>) q)"

lemma map_of_key_present: "map_of p k = Some cell \<Longrightarrow> k \<in> fst ` set p"
  by (metis domI dom_map_of_conv_image_fst)

lemma update_keys_present: "map_of p k = Some cell \<Longrightarrow> map fst (AList.update k v p) = map fst p"
  by (simp add: update_keys map_of_key_present)

lemma unsolved_count_update_same:
  "map_of p k = Some cell \<Longrightarrow> cvalue v = cvalue cell \<Longrightarrow>
     unsolved_count (AList.update k v p) = unsolved_count p"
  by (induction p) (auto simp: unsolved_count_def split: if_splits)

lemma unsolved_count_update_solve:
  "map_of p k = Some cell \<Longrightarrow> cvalue cell = None \<Longrightarrow> cvalue v \<noteq> None \<Longrightarrow>
     Suc (unsolved_count (AList.update k v p)) = unsolved_count p"
  by (induction p) (auto simp: unsolved_count_def split: if_splits)

lemma solved_cells_clear_update:
  "solved_cells_clear p \<Longrightarrow> cvalue v = None \<or> candidates v = [] \<Longrightarrow>
     solved_cells_clear (AList.update k v p)"
  by (induction p) (auto simp: solved_cells_clear_def)

lemma evolves_trans: "evolves q r \<Longrightarrow> evolves p q \<Longrightarrow> evolves p r"
  by (induction rule: evolves.induct) (auto intro: evolves.intros)

lemma evolves_keys: "evolves p q \<Longrightarrow> map fst q = map fst p"
  by (induction rule: evolves.induct) (simp_all add: update_keys_present)

lemma evolves_count: "evolves p q \<Longrightarrow> unsolved_count q \<le> unsolved_count p"
proof (induction rule: evolves.induct)
  case (same p)
  show ?case by simp
next
  case (narrow p q k cell cs)
  then show ?case using unsolved_count_update_same[of q k cell "cell\<lparr>candidates := cs\<rparr>"] by simp
next
  case (solve p q k cell d)
  then show ?case
    using unsolved_count_update_solve[of q k cell "cell\<lparr>cvalue := Some d, candidates := []\<rparr>"] by simp
qed

lemma evolves_clear: "evolves p q \<Longrightarrow> solved_cells_clear p \<Longrightarrow> solved_cells_clear q"
  by (induction rule: evolves.induct) (simp_all add: solved_cells_clear_update)

lemma evolves_solved_value:
  "evolves p q \<Longrightarrow> solved_value p k = Some v \<Longrightarrow> solved_value q k = Some v"
  by (induction rule: evolves.induct)
     (auto simp: solved_value_def update_conv' split: option.splits)

lemma sole_candidate_mem: "length cs = 1 \<Longrightarrow> cs ! 0 \<in> set cs"
  by (cases cs) auto

lemma assign_peers_evolves:
  assumes rec: "\<And>q k d' q'. rec q k d' = Some (Inr q') \<Longrightarrow> evolves q q'"
  shows "assign_peers rec p c d peers = Some (Inr p') \<Longrightarrow> evolves p p'"
proof (induction peers arbitrary: p)
  case Nil
  then show ?case by (simp add: evolves.same)
next
  case (Cons peer_ref rest)
  show ?case
  proof (cases "peer_ref = c")
    case True
    with Cons show ?thesis by simp
  next
    case ne: False
    show ?thesis
    proof (cases "map_of p peer_ref")
      case None
      with Cons.prems ne show ?thesis by simp
    next
      case (Some peer)
      show ?thesis
      proof (cases "cvalue peer = None \<and> d \<in> set (candidates peer)")
        case False
        with Cons ne Some show ?thesis by auto
      next
        case True
        define cs where "cs = remove1 d (candidates peer)"
        define p1 where "p1 = AList.update peer_ref (peer\<lparr>candidates := cs\<rparr>) p"
        have e1: "evolves p p1" unfolding p1_def
          using evolves.narrow[OF evolves.same Some] True by simp
        show ?thesis
        proof (cases "length cs = 1")
          case False
          with Cons.prems ne Some True have "assign_peers rec p1 c d rest = Some (Inr p')"
            by (simp add: cs_def p1_def Let_def)
          from Cons.IH[OF this] e1 show ?thesis by (rule evolves_trans)
        next
          case one: True
          with Cons.prems ne Some True obtain p2 where
            r: "rec p1 peer_ref (cs ! 0) = Some (Inr p2)" and
            rest: "assign_peers rec p2 c d rest = Some (Inr p')"
            by (auto simp: cs_def p1_def Let_def split: option.splits sum.splits)
          have "evolves p p2" using rec[OF r] e1 by (rule evolves_trans)
          with Cons.IH[OF rest] show ?thesis by (rule evolves_trans)
        qed
      qed
    qed
  qed
qed

lemma assign_digit_evolves:
  "assign_digit n p c d = Some (Inr p') \<Longrightarrow>
     evolves p p' \<and> unsolved_count p' < unsolved_count p \<and> solved_value p' c = Some d"
proof (induction n arbitrary: p c d p')
  case 0
  then show ?case by simp
next
  case (Suc n)
  from Suc.prems obtain cell us where
    cell: "map_of p c = Some cell" "cvalue cell = None" "d \<in> set (candidates cell)" and
    us: "get_units_for_cell c = Inr us" and
    run: "assign_peers (assign_digit n) (AList.update c (cell\<lparr>cvalue := Some d, candidates := []\<rparr>) p)
            c d (concat (units_values us)) = Some (Inr p')"
    by (auto simp: Let_def split: option.splits if_splits sum.splits)
  define p1 where "p1 = AList.update c (cell\<lparr>cvalue := Some d, candidates := []\<rparr>) p"
  have e1: "evolves p p1" unfolding p1_def
    using evolves.solve[OF evolves.same cell(1,2)] by simp
  have c1: "Suc (unsolved_count p1) = unsolved_count p" unfolding p1_def
    using unsolved_count_update_solve[OF cell(1,2)] by simp
  have v1: "solved_value p1 c = Some d"
    by (simp add: p1_def solved_value_def update_conv')
  have rec: "evolves q q'" if "assign_digit n q k d' = Some (Inr q')" for q k d' q'
    using Suc.IH[OF that] by simp
  have e2: "evolves p1 p'"
    using assign_peers_evolves[of "assign_digit n" p1 c d "concat (units_values us)" p'] rec run
    unfolding p1_def[symmetric] by blast
  show ?case
    using evolves_trans[OF e2 e1] evolves_count[OF e2] c1 evolves_solved_value[OF e2 v1]
    by simp
qed

section \<open>Example puzzles\<close>

text \<open>A full grid in which no cell is solved and every cell carries the same candidate
  list.\<close>

definition uniform_puzzle :: "int list \<Rightarrow> puzzle" where
  "uniform_puzzle cs = map (\<lambda>k. (k, \<lparr>cvalue = None, candidates = cs\<rparr>)) all_cell_refs"

lemma map_of_tabulate:
  "map_of (map (\<lambda>k. (k, f k)) ks) k = (if k \<in> set ks then Some (f k) else None)"
  by (induction ks) auto

lemma keys_uniform_puzzle: "map fst (uniform_puzzle cs) = all_cell_refs"
  by (simp add: uniform_puzzle_def comp_def)

lemma is_puzzle_uniform_puzzle: "is_puzzle (uniform_puzzle cs)"
  by (simp add: is_puzzle_def keys_uniform_puzzle distinct_all_cell_refs)

lemma map_of_uniform_puzzle:
  "map_of (uniform_puzzle cs) k =
     (if k \<in> set all_cell_refs then Some \<lparr>cvalue = None, candidates = cs\<rparr> else None)"
  unfolding uniform_puzzle_def by (rule map_of_tabulate)

section \<open>Eliminating a digit\<close>

text \<open>
  Claim C9. On an unsolved cell of the puzzle, \<^verbatim>\<open>eliminate_digit\<close> with a digit that is not
  in the cell's candidate list returns normally and leaves the puzzle as it was; this
  holds for both copies of the function, and at every depth bound.
\<close>

theorem eliminate_absent_digit_noop:
  assumes "map_of p cell_ref = Some cell"
    and "cvalue cell = None"
    and "digit \<notin> set (candidates cell)"
  shows "eliminate_digit n p cell_ref digit = Some (Inr p) \<and>
         eliminate_digit_py p cell_ref digit = Inr p"
  using assms by (simp add: eliminate_digit_def eliminate_digit_py_def)

theorem eliminate_absent_digit_noop_witness:
  "eliminate_digit 81 (uniform_puzzle [1, 2, 3]) (cell_key 4 5) 7 = Some (Inr (uniform_puzzle [1, 2, 3])) \<and>
   eliminate_digit_py (uniform_puzzle [1, 2, 3]) (cell_key 4 5) 7 = Inr (uniform_puzzle [1, 2, 3])"
  using eliminate_absent_digit_noop[of "uniform_puzzle [1, 2, 3]" "cell_key 4 5"
      "\<lparr>cvalue = None, candidates = [1, 2, 3]\<rparr>" 7 81]
  by (simp add: map_of_uniform_puzzle)

section \<open>Termination of the cascade\<close>

text \<open>The cascade returns because every recursive call is made on a puzzle with fewer
  unsolved cells. It raises nothing because the keys of a full grid contain the units of
  each of them.\<close>


definition closed_keys :: "string list \<Rightarrow> bool" where
  "closed_keys ks = (\<forall>k \<in> set ks. \<exists>us. get_units_for_cell k = Inr us \<and> set (concat (units_values us)) \<subseteq> set ks)"

lemma closed_keys_all_cell_refs: "closed_keys all_cell_refs"
  unfolding closed_keys_def
proof
  fix k assume "k \<in> set all_cell_refs"
  then obtain r c where rc: "1 \<le> r" "r \<le> 9" "1 \<le> c" "c \<le> 9" "k = cell_key r c"
    unfolding mem_all_cell_refs by blast
  then obtain us where us: "get_units_for_cell k = Inr us"
    using get_units_for_cell_key[of r c] by simp
  with rc units_in_grid[of r c us] show "\<exists>us. get_units_for_cell k = Inr us \<and> set (concat (units_values us)) \<subseteq> set all_cell_refs"
    by blast
qed

lemma is_puzzle_closed_keys: "is_puzzle p \<Longrightarrow> closed_keys (map fst p)"
  using closed_keys_all_cell_refs unfolding is_puzzle_def closed_keys_def by simp

lemma map_of_present: "k \<in> set (map fst p) \<Longrightarrow> \<exists>cell. map_of p k = Some cell"
  by (metis map_of_eq_None_iff not_Some_eq set_map)

text \<open>A state in which recursive calls at depth bound \<open>n\<close> return.\<close>

definition fits :: "string list \<Rightarrow> nat \<Rightarrow> puzzle \<Rightarrow> bool" where
  "fits ks n q = (map fst q = ks \<and> unsolved_count q \<le> n)"

lemma fits_evolves: "fits ks n q \<Longrightarrow> evolves q q' \<Longrightarrow> fits ks n q'"
  unfolding fits_def using evolves_keys[of q q'] evolves_count[of q q'] by simp

lemma assign_peers_returns:
  assumes rec: "\<And>q k d' cell. fits ks n q \<Longrightarrow> map_of q k = Some cell \<Longrightarrow> cvalue cell = None \<Longrightarrow>
      d' \<in> set (candidates cell) \<Longrightarrow> \<exists>q'. rec q k d' = Some (Inr q') \<and> evolves q q'"
  shows "fits ks n p \<Longrightarrow> set peers \<subseteq> set ks \<Longrightarrow>
      \<exists>p'. assign_peers rec p c d peers = Some (Inr p') \<and> evolves p p'"
proof (induction peers arbitrary: p)
  case Nil
  then show ?case by (simp add: evolves.same)
next
  case (Cons peer_ref rest)
  have rest: "set rest \<subseteq> set ks" using Cons.prems by simp
  show ?case
  proof (cases "peer_ref = c")
    case True
    with Cons.IH[OF Cons.prems(1) rest] show ?thesis by simp
  next
    case ne: False
    have "peer_ref \<in> set (map fst p)" using Cons.prems by (simp add: fits_def)
    from map_of_present[OF this] obtain peer where Some: "map_of p peer_ref = Some peer" ..
    show ?thesis
    proof (cases "cvalue peer = None \<and> d \<in> set (candidates peer)")
      case False
      with Cons.IH[OF Cons.prems(1) rest] ne Some show ?thesis by auto
    next
      case True
      define cs where "cs = remove1 d (candidates peer)"
      define p1 where "p1 = AList.update peer_ref (peer\<lparr>candidates := cs\<rparr>) p"
      have e1: "evolves p p1" unfolding p1_def
        using evolves.narrow[OF evolves.same Some] True by simp
      have f1: "fits ks n p1" using fits_evolves[OF Cons.prems(1) e1] .
      show ?thesis
      proof (cases "length cs = 1")
        case False
        from Cons.IH[OF f1 rest] obtain p' where
          r1: "assign_peers rec p1 c d rest = Some (Inr p')" and e2: "evolves p1 p'" by blast
        have "evolves p p'" using evolves_trans[OF e2 e1] .
        moreover have "assign_peers rec p c d (peer_ref # rest) = Some (Inr p')"
          using False ne Some True r1 by (simp add: cs_def[symmetric] p1_def[symmetric] Let_def)
        ultimately show ?thesis by blast
      next
        case one: True
        have m1: "map_of p1 peer_ref = Some (peer\<lparr>candidates := cs\<rparr>)"
          by (simp add: p1_def update_conv')
        from rec[OF f1 m1] True sole_candidate_mem[OF one] obtain p2 where
          r: "rec p1 peer_ref (cs ! 0) = Some (Inr p2)" and e2: "evolves p1 p2"
          by auto
        have f2: "fits ks n p2" using fits_evolves[OF f1 e2] .
        from Cons.IH[OF f2 rest] obtain p' where
          r3: "assign_peers rec p2 c d rest = Some (Inr p')" and e3: "evolves p2 p'" by blast
        have "evolves p p'" using evolves_trans[OF e3 evolves_trans[OF e2 e1]] .
        moreover have "assign_peers rec p c d (peer_ref # rest) = Some (Inr p')"
          using one ne Some True r r3 by (simp add: cs_def[symmetric] p1_def[symmetric] Let_def)
        ultimately show ?thesis by blast
      qed
    qed
  qed
qed

lemma assign_digit_returns:
  "closed_keys (map fst p) \<Longrightarrow> unsolved_count p \<le> n \<Longrightarrow> map_of p c = Some cell \<Longrightarrow>
     cvalue cell = None \<Longrightarrow> d \<in> set (candidates cell) \<Longrightarrow>
     \<exists>p'. assign_digit n p c d = Some (Inr p')"
proof (induction n arbitrary: p c d cell)
  case 0
  have "unsolved_count p \<noteq> 0"
    using unsolved_count_update_solve[OF 0(3,4), of "cell\<lparr>cvalue := Some d\<rparr>"] by auto
  with 0 show ?case by simp
next
  case (Suc n)
  define ks where "ks = map fst p"
  define p1 where "p1 = AList.update c (cell\<lparr>cvalue := Some d, candidates := []\<rparr>) p"
  have "c \<in> set ks" using Suc.prems(3) map_of_key_present[of p c cell] by (simp add: ks_def)
  with Suc.prems(1) obtain us where us: "get_units_for_cell c = Inr us"
    "set (concat (units_values us)) \<subseteq> set ks"
    unfolding closed_keys_def ks_def by blast
  have f1: "fits ks n p1"
    using unsolved_count_update_solve[OF Suc.prems(3,4), of "cell\<lparr>cvalue := Some d, candidates := []\<rparr>"]
      update_keys_present[OF Suc.prems(3)] Suc.prems(2)
    by (simp add: fits_def p1_def ks_def)
  have rec: "\<exists>q'. assign_digit n q k d' = Some (Inr q') \<and> evolves q q'"
    if a: "fits ks n q" and b: "map_of q k = Some cell'" and b2: "cvalue cell' = None"
      and b3: "d' \<in> set (candidates cell')"
    for q k d' cell'
  proof -
    have "closed_keys (map fst q)" using a Suc.prems(1) by (simp add: fits_def ks_def)
    moreover have "unsolved_count q \<le> n" using a by (simp add: fits_def)
    ultimately obtain q' where "assign_digit n q k d' = Some (Inr q')"
      using Suc.IH[OF _ _ b b2 b3] by blast
    with assign_digit_evolves[OF this] show ?thesis by blast
  qed
  from assign_peers_returns[of ks n "assign_digit n" p1 "concat (units_values us)" c d] rec f1 us(2)
  obtain p' where "assign_peers (assign_digit n) p1 c d (concat (units_values us)) = Some (Inr p')"
    by blast
  then show ?case using Suc.prems(3,4,5) us(1) by (simp add: p1_def Let_def)
qed

lemma assign_peers_mono:
  assumes rec: "\<And>q k d' r. rec q k d' = Some r \<Longrightarrow> rec' q k d' = Some r"
  shows "assign_peers rec p c d peers = Some r \<Longrightarrow> assign_peers rec' p c d peers = Some r"
proof (induction peers arbitrary: p)
  case Nil
  then show ?case by simp
next
  case (Cons peer_ref rest)
  show ?case
  proof (cases "peer_ref = c")
    case True
    with Cons show ?thesis by simp
  next
    case ne: False
    show ?thesis
    proof (cases "map_of p peer_ref")
      case None
      with Cons.prems ne show ?thesis by simp
    next
      case (Some peer)
      show ?thesis
      proof (cases "cvalue peer = None \<and> d \<in> set (candidates peer)")
        case False
        with Cons ne Some show ?thesis by auto
      next
        case True
        define cs where "cs = remove1 d (candidates peer)"
        define p1 where "p1 = AList.update peer_ref (peer\<lparr>candidates := cs\<rparr>) p"
        show ?thesis
        proof (cases "length cs = 1")
          case False
          with Cons.prems ne Some True have "assign_peers rec p1 c d rest = Some r"
            by (simp add: cs_def p1_def Let_def)
          from Cons.IH[OF this] False ne Some True show ?thesis
            by (simp add: cs_def p1_def Let_def)
        next
          case one: True
          from Cons.prems ne Some True one obtain r1 where
            r1: "rec p1 peer_ref (cs ! 0) = Some r1"
            by (auto simp: cs_def p1_def Let_def split: option.splits)
          have r1': "rec' p1 peer_ref (cs ! 0) = Some r1" using rec[OF r1] .
          show ?thesis
          proof (cases r1)
            case (Inl e)
            with Cons.prems ne Some True one r1 have "r = Inl e"
              by (simp add: cs_def[symmetric] p1_def[symmetric] Let_def)
            with Inl ne Some True one r1' show ?thesis
              by (simp add: cs_def[symmetric] p1_def[symmetric] Let_def)
          next
            case (Inr p2)
            with Cons.prems ne Some True one r1 have "assign_peers rec p2 c d rest = Some r"
              by (simp add: cs_def[symmetric] p1_def[symmetric] Let_def)
            from Cons.IH[OF this] Inr ne Some True one r1' show ?thesis
              by (simp add: cs_def[symmetric] p1_def[symmetric] Let_def)
          qed
        qed
      qed
    qed
  qed
qed

lemma assign_digit_mono:
  "assign_digit n p c d = Some r \<Longrightarrow> n \<le> m \<Longrightarrow> assign_digit m p c d = Some r"
proof (induction n arbitrary: m p c d r)
  case 0
  then show ?case by simp
next
  case (Suc n)
  then obtain m' where m: "m = Suc m'" "n \<le> m'" by (cases m) auto
  have rec: "assign_digit m' q k d' = Some r'" if "assign_digit n q k d' = Some r'" for q k d' r'
    using Suc.IH[OF that m(2)] .
  show ?case
  proof (cases "map_of p c")
    case None
    with Suc.prems(1) show ?thesis by (simp add: m(1))
  next
    case (Some cell)
    show ?thesis
    proof (cases "cvalue cell = None \<and> d \<in> set (candidates cell)")
      case False
      with Suc.prems(1) Some show ?thesis by (auto simp: m(1) split: if_splits)
    next
      case True
      show ?thesis
      proof (cases "get_units_for_cell c")
        case (Inl e)
        with Suc.prems(1) Some True show ?thesis by (simp add: m(1))
      next
        case (Inr us)
        with Suc.prems(1) Some True have
          "assign_peers (assign_digit n) (AList.update c (cell\<lparr>cvalue := Some d, candidates := []\<rparr>) p)
             c d (concat (units_values us)) = Some r"
          by (simp add: Let_def)
        from assign_peers_mono[of "assign_digit n" "assign_digit m'", OF rec this] Inr Some True
        show ?thesis by (simp add: m(1) Let_def)
      qed
    qed
  qed
qed


lemma unsolved_count_le_length: "unsolved_count p \<le> length p"
  by (simp add: unsolved_count_def)

lemma is_puzzle_length: "is_puzzle p \<Longrightarrow> length p = 81"
proof -
  assume "is_puzzle p"
  then have "distinct (map fst p)" "set (map fst p) = set all_cell_refs"
    by (simp_all add: is_puzzle_def)
  then have "length (map fst p) = length all_cell_refs"
    using distinct_all_cell_refs by (metis distinct_card)
  then show ?thesis by (simp add: length_all_cell_refs)
qed

text \<open>
  Claim C3. On a full grid, \<^verbatim>\<open>assign_digit\<close> called on an unsolved cell with one of its
  candidates returns a puzzle, and the same one at every depth bound from the number of
  unsolved cells on, which is at most 81: the recursion is never deeper than that. The
  puzzle returned has the same keys and strictly fewer unsolved cells.
\<close>

theorem assign_digit_terminates:
  assumes "is_puzzle p"
    and "map_of p cell_ref = Some cell"
    and "cvalue cell = None"
    and "digit \<in> set (candidates cell)"
  shows "unsolved_count p \<le> 81 \<and>
    (\<exists>p'. (\<forall>n \<ge> unsolved_count p. assign_digit n p cell_ref digit = Some (Inr p')) \<and>
          map fst p' = map fst p \<and> unsolved_count p' < unsolved_count p)"
proof -
  have bound: "unsolved_count p \<le> 81"
    using unsolved_count_le_length[of p] is_puzzle_length[OF assms(1)] by simp
  from assign_digit_returns[OF is_puzzle_closed_keys[OF assms(1)] order_refl assms(2,3,4)]
  obtain p' where run: "assign_digit (unsolved_count p) p cell_ref digit = Some (Inr p')" ..
  have "assign_digit n p cell_ref digit = Some (Inr p')" if "unsolved_count p \<le> n" for n
    using assign_digit_mono[OF run that] .
  moreover have "map fst p' = map fst p" "unsolved_count p' < unsolved_count p"
    using assign_digit_evolves[OF run] evolves_keys[of p p'] by simp_all
  ultimately show ?thesis using bound by blast
qed

theorem assign_digit_terminates_witness:
  "unsolved_count (uniform_puzzle [1, 2, 3]) \<le> 81 \<and>
    (\<exists>p'. (\<forall>n \<ge> unsolved_count (uniform_puzzle [1, 2, 3]).
             assign_digit n (uniform_puzzle [1, 2, 3]) (cell_key 1 1) 2 = Some (Inr p')) \<and>
          map fst p' = map fst (uniform_puzzle [1, 2, 3]) \<and>
          unsolved_count p' < unsolved_count (uniform_puzzle [1, 2, 3]))"
  using assign_digit_terminates[of "uniform_puzzle [1, 2, 3]" "cell_key 1 1"
      "\<lparr>cvalue = None, candidates = [1, 2, 3]\<rparr>" 2]
  by (simp add: is_puzzle_uniform_puzzle map_of_uniform_puzzle)

section \<open>The two copies of \<^verbatim>\<open>eliminate_digit\<close>\<close>

text \<open>
  Claim C2. When removing the digit leaves exactly one candidate, the copy of
  \<^verbatim>\<open>eliminate_digit\<close> in \<^verbatim>\<open>src/backend/sudoku_ms.py\<close> is \<^verbatim>\<open>assign_digit\<close> on the
  narrowed cell with that candidate, and on a full grid it returns with the cell solved.
  The copy in \<^verbatim>\<open>src/python/sudoku.py\<close> only removes the digit: it returns the puzzle
  with the cell still unsolved, its one candidate unassigned.
\<close>

theorem eliminate_digit_copies_differ:
  assumes "is_puzzle p"
    and "map_of p cell_ref = Some cell"
    and "cvalue cell = None"
    and "digit \<in> set (candidates cell)"
    and "remove1 digit (candidates cell) = [sole]"
  shows "eliminate_digit n p cell_ref digit =
           assign_digit n (AList.update cell_ref (cell\<lparr>candidates := [sole]\<rparr>) p) cell_ref sole \<and>
         (\<exists>p'. eliminate_digit 81 p cell_ref digit = Some (Inr p') \<and>
               solved_value p' cell_ref = Some sole) \<and>
         eliminate_digit_py p cell_ref digit =
           Inr (AList.update cell_ref (cell\<lparr>candidates := [sole]\<rparr>) p) \<and>
         solved_value (AList.update cell_ref (cell\<lparr>candidates := [sole]\<rparr>) p) cell_ref = None"
proof -
  define p1 where "p1 = AList.update cell_ref (cell\<lparr>candidates := [sole]\<rparr>) p"
  have eq: "eliminate_digit n p cell_ref digit = assign_digit n p1 cell_ref sole" for n
    using assms(2-5) by (simp add: eliminate_digit_def p1_def Let_def)
  have keys: "closed_keys (map fst p1)"
    using is_puzzle_closed_keys[OF assms(1)] update_keys_present[OF assms(2)]
    by (simp add: p1_def)
  have "unsolved_count p1 = unsolved_count p"
    unfolding p1_def using unsolved_count_update_same[OF assms(2)] by simp
  then have count: "unsolved_count p1 \<le> 81"
    using unsolved_count_le_length[of p] is_puzzle_length[OF assms(1)] by simp
  have m1: "map_of p1 cell_ref = Some (cell\<lparr>candidates := [sole]\<rparr>)"
    by (simp add: p1_def update_conv')
  from assign_digit_returns[OF keys count m1] assms(3)
  obtain p' where run: "assign_digit 81 p1 cell_ref sole = Some (Inr p')" by auto
  have "solved_value p' cell_ref = Some sole" using assign_digit_evolves[OF run] by simp
  with run eq[of 81] have "\<exists>p'. eliminate_digit 81 p cell_ref digit = Some (Inr p') \<and>
               solved_value p' cell_ref = Some sole" by simp
  moreover have "eliminate_digit_py p cell_ref digit = Inr p1"
    using assms(2-5) by (simp add: eliminate_digit_py_def p1_def)
  moreover have "solved_value p1 cell_ref = None"
    using m1 assms(3) by (simp add: solved_value_def)
  ultimately show ?thesis using eq[of n] unfolding p1_def by blast
qed

theorem eliminate_digit_copies_differ_witness:
  "eliminate_digit 81 (uniform_puzzle [1, 2]) (cell_key 1 1) 1 =
     assign_digit 81 (AList.update (cell_key 1 1) \<lparr>cvalue = None, candidates = [2]\<rparr>
        (uniform_puzzle [1, 2])) (cell_key 1 1) 2 \<and>
   (\<exists>p'. eliminate_digit 81 (uniform_puzzle [1, 2]) (cell_key 1 1) 1 = Some (Inr p') \<and>
         solved_value p' (cell_key 1 1) = Some 2) \<and>
   eliminate_digit_py (uniform_puzzle [1, 2]) (cell_key 1 1) 1 =
     Inr (AList.update (cell_key 1 1) \<lparr>cvalue = None, candidates = [2]\<rparr> (uniform_puzzle [1, 2])) \<and>
   solved_value (AList.update (cell_key 1 1) \<lparr>cvalue = None, candidates = [2]\<rparr>
     (uniform_puzzle [1, 2])) (cell_key 1 1) = None"
  using eliminate_digit_copies_differ[of "uniform_puzzle [1, 2]" "cell_key 1 1"
      "\<lparr>cvalue = None, candidates = [1, 2]\<rparr>" 1 2 81]
  by (simp add: is_puzzle_uniform_puzzle map_of_uniform_puzzle) metis

section \<open>What the candidate engine stores\<close>

text \<open>\<^verbatim>\<open>compute_candidates\<close> reads only the keys and the values of the puzzle, and writes
  only candidates: what it computes for one cell does not depend on how far the loop has
  come.\<close>

definition same_values :: "puzzle \<Rightarrow> puzzle \<Rightarrow> bool" where
  "same_values p q =
     (map fst q = map fst p \<and> (\<forall>k. map_option cvalue (map_of q k) = map_option cvalue (map_of p k)))"

lemma same_values_refl: "same_values p p"
  by (simp add: same_values_def)

lemma same_values_trans: "same_values p q \<Longrightarrow> same_values q r \<Longrightarrow> same_values p r"
  by (simp add: same_values_def)

lemma same_values_update:
  "map_of p k = Some cell \<Longrightarrow> cvalue v = cvalue cell \<Longrightarrow> same_values p (AList.update k v p)"
  by (simp add: same_values_def update_keys_present update_conv')

lemma same_values_lookup:
  assumes "same_values p q"
  shows "(map_of q k = None \<longleftrightarrow> map_of p k = None) \<and> solved_value q k = solved_value p k"
proof -
  from assms have eq: "map_option cvalue (map_of q k) = map_option cvalue (map_of p k)"
    by (simp add: same_values_def)
  then show ?thesis
    by (cases "map_of q k"; cases "map_of p k") (simp_all add: solved_value_def)
qed

lemma collect_used_same_values:
  assumes "same_values p q"
  shows "collect_used q ks used = collect_used p ks used"
proof (induction ks arbitrary: used)
  case Nil
  show ?case by simp
next
  case (Cons k ks)
  from assms have eq: "map_option cvalue (map_of q k) = map_option cvalue (map_of p k)"
    by (simp add: same_values_def)
  show ?case
  proof (cases "map_of p k")
    case None
    with eq show ?thesis by simp
  next
    case (Some cell)
    with eq obtain cell' where "map_of q k = Some cell'" "cvalue cell' = cvalue cell" by auto
    with Some Cons show ?thesis by (simp split: option.splits)
  qed
qed

lemma collect_used_present:
  "\<forall>k \<in> set ks. map_of p k \<noteq> None \<Longrightarrow>
     collect_used p ks used = Inr (used \<union> set (List.map_filter (solved_value p) ks))"
proof (induction ks arbitrary: used)
  case Nil
  show ?case by (simp add: map_filter_simps)
next
  case (Cons k ks)
  then obtain cell where cell: "map_of p k = Some cell" by auto
  from Cons have IH: "collect_used p ks u = Inr (u \<union> set (List.map_filter (solved_value p) ks))" for u
    by simp
  have "solved_value p k = cvalue cell" by (simp add: solved_value_def cell)
  then show ?case
    by (cases "cvalue cell") (simp_all add: cell IH map_filter_simps)
qed

text \<open>The body of the outer loop for one cell: the cell it stores.\<close>

definition refreshed :: "puzzle \<Rightarrow> string \<Rightarrow> SudokuCell \<Rightarrow> error + SudokuCell" where
  "refreshed p cell_ref cell =
     (if cvalue cell \<noteq> None then Inr (cell\<lparr>candidates := []\<rparr>)
      else (case get_units_for_cell cell_ref of
              Inl e \<Rightarrow> Inl e
            | Inr us \<Rightarrow>
                (case collect_used p (concat (units_values us)) {} of
                   Inl e \<Rightarrow> Inl e
                 | Inr used_digits \<Rightarrow>
                     Inr (cell\<lparr>candidates := filter (\<lambda>d. d \<notin> used_digits) [1..9]\<rparr>))))"

lemma compute_loop_Cons:
  "compute_loop p (k # rest) =
     (case map_of p k of
        None \<Rightarrow> Inl KeyError
      | Some cell \<Rightarrow>
          (case refreshed p k cell of
             Inl e \<Rightarrow> Inl e
           | Inr cell' \<Rightarrow> compute_loop (AList.update k cell' p) rest))"
  by (simp add: refreshed_def split: option.splits sum.splits)

lemma refreshed_value: "refreshed p k cell = Inr cell' \<Longrightarrow> cvalue cell' = cvalue cell"
  by (auto simp: refreshed_def split: if_splits sum.splits)

lemma refreshed_same_values: "same_values p q \<Longrightarrow> refreshed q k cell = refreshed p k cell"
  by (auto simp: refreshed_def collect_used_same_values split: sum.splits)

lemma refreshed_again: "refreshed p k cell = Inr cell' \<Longrightarrow> refreshed p k cell' = Inr cell'"
  by (auto simp: refreshed_def split: if_splits sum.splits)

lemma compute_loop_result:
  shows "distinct ks \<Longrightarrow> same_values p0 p \<Longrightarrow> compute_loop p ks = Inr p' \<Longrightarrow>
     same_values p0 p' \<and>
     (\<forall>k \<in> set ks. \<exists>cell cell'. map_of p k = Some cell \<and> map_of p' k = Some cell' \<and>
        refreshed p0 k cell = Inr cell') \<and>
     (\<forall>k. k \<notin> set ks \<longrightarrow> map_of p' k = map_of p k)"
proof (induction ks arbitrary: p)
  case Nil
  then show ?case by simp
next
  case (Cons k rest)
  from Cons.prems(3) obtain cell cell' where
    cell: "map_of p k = Some cell" and cell': "refreshed p k cell = Inr cell'" and
    run: "compute_loop (AList.update k cell' p) rest = Inr p'"
    unfolding compute_loop_Cons by (auto split: option.splits sum.splits)
  define p1 where "p1 = AList.update k cell' p"
  have s1: "same_values p0 p1"
    unfolding p1_def
    using same_values_trans[OF Cons.prems(2) same_values_update[OF cell refreshed_value[OF cell']]] .
  have d: "distinct rest" "k \<notin> set rest" using Cons.prems(1) by simp_all
  from Cons.IH[OF d(1) s1] run
  have IH: "same_values p0 p'"
    "\<forall>k \<in> set rest. \<exists>cell cell'. map_of p1 k = Some cell \<and> map_of p' k = Some cell' \<and>
        refreshed p0 k cell = Inr cell'"
    "\<forall>k. k \<notin> set rest \<longrightarrow> map_of p' k = map_of p1 k"
    unfolding p1_def by simp_all
  have m1: "map_of p1 k' = (if k' = k then Some cell' else map_of p k')" for k'
    by (simp add: p1_def update_conv')
  have head: "map_of p' k = Some cell'" using IH(3) d(2) m1 by simp
  have cell0: "refreshed p0 k cell = Inr cell'"
    using refreshed_same_values[OF Cons.prems(2), of k cell] cell' by simp
  have "\<exists>cell cell'. map_of p k2 = Some cell \<and> map_of p' k2 = Some cell' \<and>
        refreshed p0 k2 cell = Inr cell'" if "k2 \<in> set (k # rest)" for k2
  proof (cases "k2 = k")
    case True
    with cell head cell0 show ?thesis by simp
  next
    case False
    with that have "k2 \<in> set rest" by simp
    with IH(2) obtain cell2 cell2' where c2: "map_of p1 k2 = Some cell2"
      "map_of p' k2 = Some cell2'" "refreshed p0 k2 cell2 = Inr cell2'" by blast
    have "map_of p k2 = Some cell2" using c2(1) m1[of k2] False by simp
    with c2 show ?thesis by blast
  qed
  moreover have "map_of p' k2 = map_of p k2" if "k2 \<notin> set (k # rest)" for k2
    using that IH(3) m1[of k2] by simp
  ultimately show ?case using IH(1) by blast
qed

lemma compute_loop_returns:
  "distinct ks \<Longrightarrow> same_values p0 p \<Longrightarrow>
     \<forall>k \<in> set ks. \<exists>cell cell'. map_of p k = Some cell \<and> refreshed p0 k cell = Inr cell' \<Longrightarrow>
     \<exists>p'. compute_loop p ks = Inr p'"
proof (induction ks arbitrary: p)
  case Nil
  then show ?case by simp
next
  case (Cons k rest)
  from Cons.prems(3) obtain cell cell' where
    cell: "map_of p k = Some cell" and cell0: "refreshed p0 k cell = Inr cell'"
    by auto
  have cell': "refreshed p k cell = Inr cell'"
    using refreshed_same_values[OF Cons.prems(2), of k cell] cell0 by simp
  define p1 where "p1 = AList.update k cell' p"
  have s1: "same_values p0 p1"
    unfolding p1_def
    using same_values_trans[OF Cons.prems(2) same_values_update[OF cell refreshed_value[OF cell']]] .
  have d: "distinct rest" "k \<notin> set rest" using Cons.prems(1) by simp_all
  have "\<exists>cell cell'. map_of p1 k2 = Some cell \<and> refreshed p0 k2 cell = Inr cell'"
    if "k2 \<in> set rest" for k2
  proof -
    from that d(2) have "k2 \<noteq> k" by auto
    then have "map_of p1 k2 = map_of p k2" by (simp add: p1_def update_conv')
    with Cons.prems(3) that show ?thesis by simp
  qed
  then have "\<forall>k \<in> set rest. \<exists>cell cell'. map_of p1 k = Some cell \<and> refreshed p0 k cell = Inr cell'"
    by blast
  from Cons.IH[OF d(1) s1 this] obtain p' where "compute_loop p1 rest = Inr p'" ..
  then show ?case unfolding compute_loop_Cons by (simp add: cell cell' p1_def)
qed

section \<open>The units of a cell\<close>

text \<open>The units as the specification describes them: two cells of the grid share a
  unit when they are in the same row, the same column or the same 3\<times>3 block. A cell
  shares a unit with itself.\<close>

definition shares_unit :: "int \<Rightarrow> int \<Rightarrow> int \<Rightarrow> int \<Rightarrow> bool" where
  "shares_unit r c r' c' =
     (r' = r \<or> c' = c \<or> ((r' - 1) div 3 = (r - 1) div 3 \<and> (c' - 1) div 3 = (c - 1) div 3))"

definition peer_refs :: "int \<Rightarrow> int \<Rightarrow> string list" where
  "peer_refs r c =
     concat (map (\<lambda>r'. concat (map (\<lambda>c'. if shares_unit r c r' c' then [cell_key r' c'] else [])
                                    [1..9])) [1..9])"

text \<open>The solved values held by the cells of the three units of cell \<open>(r, c)\<close>.\<close>

definition unit_values :: "puzzle \<Rightarrow> int \<Rightarrow> int \<Rightarrow> int set" where
  "unit_values p r c = set (List.map_filter (solved_value p) (peer_refs r c))"

lemma set_map_filter: "set (List.map_filter f xs) = {y. \<exists>x \<in> set xs. f x = Some y}"
  by (induction xs) (auto simp: map_filter_simps split: option.splits)

lemma mem_peer_refs:
  "k \<in> set (peer_refs r c) \<longleftrightarrow>
     (\<exists>r' c'. 1 \<le> r' \<and> r' \<le> 9 \<and> 1 \<le> c' \<and> c' \<le> 9 \<and> shares_unit r c r' c' \<and> k = cell_key r' c')"
proof -
  have "k \<in> set (peer_refs r c) \<longleftrightarrow>
      (\<exists>r'\<in>{1..9}. \<exists>c'\<in>{1..9}. shares_unit r c r' c' \<and> k = cell_key r' c')"
    unfolding peer_refs_def by (auto simp del: upto_rec_numeral split: if_splits)
  also have "\<dots> \<longleftrightarrow> (\<exists>r' c'. 1 \<le> r' \<and> r' \<le> 9 \<and> 1 \<le> c' \<and> c' \<le> 9 \<and> shares_unit r c r' c' \<and> k = cell_key r' c')"
    by (simp add: Bex_def)
  finally show ?thesis .
qed

lemma mem_line: "k \<in> set (map f [a..b]) \<longleftrightarrow> (\<exists>x. a \<le> x \<and> x \<le> b \<and> k = f x)"
  by auto

lemma mem_grid_block:
  "k \<in> set (concat (map (\<lambda>r'. map (\<lambda>c'. cell_key r' c') [a..b]) [a'..b'])) \<longleftrightarrow>
     (\<exists>r' c'. (a' \<le> r' \<and> r' \<le> b') \<and> (a \<le> c' \<and> c' \<le> b) \<and> k = cell_key r' c')"
proof -
  have "k \<in> set (concat (map (\<lambda>r'. map (\<lambda>c'. cell_key r' c') [a..b]) [a'..b'])) \<longleftrightarrow>
      (\<exists>r'\<in>{a'..b'}. \<exists>c'\<in>{a..b}. k = cell_key r' c')"
    by simp blast
  also have "\<dots> \<longleftrightarrow> (\<exists>r' c'. (a' \<le> r' \<and> r' \<le> b') \<and> (a \<le> c' \<and> c' \<le> b) \<and> k = cell_key r' c')"
    by (simp add: Bex_def)
  finally show ?thesis .
qed

lemma block_iff:
  "1 \<le> (r::int) \<Longrightarrow> r \<le> 9 \<Longrightarrow>
     ((r - 1) div 3 * 3 + 1 \<le> x \<and> x \<le> (r - 1) div 3 * 3 + 1 + 3 - 1) \<longleftrightarrow>
     (1 \<le> x \<and> x \<le> 9 \<and> (x - 1) div 3 = (r - 1) div 3)"
  by presburger

lemma units_are_peer_refs:
  assumes "1 \<le> r" "r \<le> 9" "1 \<le> c" "c \<le> 9"
    and "get_units_for_cell (cell_key r c) = Inr us"
  shows "set (concat (units_values us)) = set (peer_refs r c)"
proof -
  have us: "us = \<lparr>row = map (\<lambda>c'. cell_key r c') [1..9],
         col = map (\<lambda>r'. cell_key r' c) [1..9],
         block = concat (map (\<lambda>r'. map (\<lambda>c'. cell_key r' c') [(c - 1) div 3 * 3 + 1..(c - 1) div 3 * 3 + 1 + 3 - 1])
                          [(r - 1) div 3 * 3 + 1..(r - 1) div 3 * 3 + 1 + 3 - 1])\<rparr>"
    using assms get_units_for_cell_key[of r c] by simp
  have parts: "row us = map (\<lambda>c'. cell_key r c') [1..9]"
    "col us = map (\<lambda>r'. cell_key r' c) [1..9]"
    "block us = concat (map (\<lambda>r'. map (\<lambda>c'. cell_key r' c') [(c - 1) div 3 * 3 + 1..(c - 1) div 3 * 3 + 1 + 3 - 1])
                          [(r - 1) div 3 * 3 + 1..(r - 1) div 3 * 3 + 1 + 3 - 1])"
    by (simp_all add: us)
  have "k \<in> set (concat (units_values us)) \<longleftrightarrow>
      k \<in> set (row us) \<or> k \<in> set (col us) \<or> k \<in> set (block us)" for k
    by (simp add: units_values_def)
  then have mem: "k \<in> set (concat (units_values us)) \<longleftrightarrow>
      (\<exists>c'. 1 \<le> c' \<and> c' \<le> 9 \<and> k = cell_key r c') \<or>
      (\<exists>r'. 1 \<le> r' \<and> r' \<le> 9 \<and> k = cell_key r' c) \<or>
      (\<exists>r' c'. ((r - 1) div 3 * 3 + 1 \<le> r' \<and> r' \<le> (r - 1) div 3 * 3 + 1 + 3 - 1) \<and>
               ((c - 1) div 3 * 3 + 1 \<le> c' \<and> c' \<le> (c - 1) div 3 * 3 + 1 + 3 - 1) \<and>
               k = cell_key r' c')" for k
    unfolding parts mem_line mem_grid_block .
  have "k \<in> set (concat (units_values us)) \<longleftrightarrow> k \<in> set (peer_refs r c)" for k
  proof
    assume "k \<in> set (concat (units_values us))"
    then consider
        (row) c' where "1 \<le> c'" "c' \<le> 9" "k = cell_key r c'"
      | (col) r' where "1 \<le> r'" "r' \<le> 9" "k = cell_key r' c"
      | (block) r' c' where "(r - 1) div 3 * 3 + 1 \<le> r' \<and> r' \<le> (r - 1) div 3 * 3 + 1 + 3 - 1"
          "(c - 1) div 3 * 3 + 1 \<le> c' \<and> c' \<le> (c - 1) div 3 * 3 + 1 + 3 - 1" "k = cell_key r' c'"
      unfolding mem by blast
    then show "k \<in> set (peer_refs r c)"
    proof cases
      case row
      with assms(1,2) show ?thesis unfolding mem_peer_refs shares_unit_def by blast
    next
      case col
      with assms(3,4) show ?thesis unfolding mem_peer_refs shares_unit_def by blast
    next
      case block
      from block(1) have "1 \<le> r' \<and> r' \<le> 9 \<and> (r' - 1) div 3 = (r - 1) div 3"
        using block_iff[OF assms(1,2), of r'] by simp
      moreover from block(2) have "1 \<le> c' \<and> c' \<le> 9 \<and> (c' - 1) div 3 = (c - 1) div 3"
        using block_iff[OF assms(3,4), of c'] by simp
      ultimately show ?thesis using block(3) unfolding mem_peer_refs shares_unit_def by blast
    qed
  next
    assume "k \<in> set (peer_refs r c)"
    then obtain r' c' where rc: "1 \<le> r'" "r' \<le> 9" "1 \<le> c'" "c' \<le> 9" "k = cell_key r' c'"
      and sh: "shares_unit r c r' c'"
      unfolding mem_peer_refs by blast
    from sh consider (row) "r' = r" | (col) "c' = c"
      | (block) "(r' - 1) div 3 = (r - 1) div 3" "(c' - 1) div 3 = (c - 1) div 3"
      unfolding shares_unit_def by blast
    then show "k \<in> set (concat (units_values us))"
    proof cases
      case row
      with rc show ?thesis unfolding mem by blast
    next
      case col
      with rc show ?thesis unfolding mem by blast
    next
      case block
      have "(r - 1) div 3 * 3 + 1 \<le> r' \<and> r' \<le> (r - 1) div 3 * 3 + 1 + 3 - 1"
        using block_iff[OF assms(1,2), of r'] rc(1,2) block(1) by simp
      moreover have "(c - 1) div 3 * 3 + 1 \<le> c' \<and> c' \<le> (c - 1) div 3 * 3 + 1 + 3 - 1"
        using block_iff[OF assms(3,4), of c'] rc(3,4) block(2) by simp
      ultimately show ?thesis using rc(5) unfolding mem by blast
    qed
  qed
  then show ?thesis by blast
qed

lemma same_values_unit_values: "same_values p q \<Longrightarrow> unit_values q r c = unit_values p r c"
  using same_values_lookup[of p q] by (simp add: unit_values_def set_map_filter)

lemma refreshed_grid:
  assumes "is_puzzle p" "1 \<le> r" "r \<le> 9" "1 \<le> c" "c \<le> 9"
  shows "refreshed p (cell_key r c) cell =
     Inr (cell\<lparr>candidates := if cvalue cell \<noteq> None then []
                               else filter (\<lambda>d. d \<notin> unit_values p r c) [1..9]\<rparr>)"
proof (cases "cvalue cell \<noteq> None")
  case True
  then show ?thesis by (simp add: refreshed_def)
next
  case False
  obtain us where us: "get_units_for_cell (cell_key r c) = Inr us"
    using get_units_for_cell_key[of r c] assms(2-5) by simp
  have keys: "set (map fst p) = set all_cell_refs" using assms(1) by (simp add: is_puzzle_def)
  have sub: "set (concat (units_values us)) \<subseteq> set (map fst p)"
    using units_in_grid[OF assms(2-5) us] keys by simp
  have "map_of p k \<noteq> None" if "k \<in> set (concat (units_values us))" for k
  proof -
    from that sub have "k \<in> set (map fst p)" ..
    from map_of_present[OF this] show ?thesis by simp
  qed
  then have "\<forall>k \<in> set (concat (units_values us)). map_of p k \<noteq> None" ..
  from collect_used_present[OF this, of "{}"]
  have "collect_used p (concat (units_values us)) {} =
      Inr (set (List.map_filter (solved_value p) (concat (units_values us))))"
    by (simp only: Un_empty_left)
  moreover have "set (List.map_filter (solved_value p) (concat (units_values us))) = unit_values p r c"
    unfolding unit_values_def set_map_filter units_are_peer_refs[OF assms(2-5) us] ..
  ultimately have "collect_used p (concat (units_values us)) {} = Inr (unit_values p r c)"
    by (simp only:)
  with False us show ?thesis by (simp add: refreshed_def)
qed

section \<open>The result of the candidate computation\<close>

lemma compute_candidates_grid:
  assumes "is_puzzle p"
  shows "\<exists>p'. compute_candidates p = Inr p' \<and> same_values p p' \<and>
    (\<forall>r c cell. 1 \<le> r \<and> r \<le> 9 \<and> 1 \<le> c \<and> c \<le> 9 \<and> map_of p (cell_key r c) = Some cell \<longrightarrow>
       map_of p' (cell_key r c) =
         Some (cell\<lparr>candidates := if cvalue cell \<noteq> None then []
                                   else filter (\<lambda>d. d \<notin> unit_values p r c) [1..9]\<rparr>))"
proof -
  have d: "distinct (map fst p)" and keys: "set (map fst p) = set all_cell_refs"
    using assms by (simp_all add: is_puzzle_def)
  have ok: "\<exists>cell cell'. map_of p k = Some cell \<and> refreshed p k cell = Inr cell'"
    if "k \<in> set (map fst p)" for k
  proof -
    from map_of_present[OF that] obtain cell where cell: "map_of p k = Some cell" ..
    from that keys have "k \<in> set all_cell_refs" by simp
    then obtain r c where "1 \<le> r" "r \<le> 9" "1 \<le> c" "c \<le> 9" "k = cell_key r c"
      unfolding mem_all_cell_refs by blast
    with refreshed_grid[OF assms, of r c cell] cell show ?thesis by simp
  qed
  then have "\<forall>k \<in> set (map fst p). \<exists>cell cell'. map_of p k = Some cell \<and> refreshed p k cell = Inr cell'"
    by blast
  from compute_loop_returns[OF d same_values_refl this]
  obtain p' where run: "compute_loop p (map fst p) = Inr p'" ..
  from compute_loop_result[OF d same_values_refl run]
  have s: "same_values p p'" and
    res: "\<forall>k \<in> set (map fst p). \<exists>cell cell'. map_of p k = Some cell \<and> map_of p' k = Some cell' \<and>
        refreshed p k cell = Inr cell'"
    by simp_all
  have "map_of p' (cell_key r c) =
         Some (cell\<lparr>candidates := if cvalue cell \<noteq> None then []
                                   else filter (\<lambda>d. d \<notin> unit_values p r c) [1..9]\<rparr>)"
    if rc: "1 \<le> r" "r \<le> 9" "1 \<le> c" "c \<le> 9" and cell: "map_of p (cell_key r c) = Some cell"
    for r c cell
  proof -
    have "cell_key r c \<in> set (map fst p)" using keys rc by simp
    with res obtain cell1 cell' where c1: "map_of p (cell_key r c) = Some cell1"
      "map_of p' (cell_key r c) = Some cell'" "refreshed p (cell_key r c) cell1 = Inr cell'"
      by blast
    from c1(1) cell have "cell1 = cell" by simp
    with c1(2,3) refreshed_grid[OF assms rc, of cell] show ?thesis by simp
  qed
  with run s show ?thesis unfolding compute_candidates_def by blast
qed

text \<open>A full grid with one clue, 5 in the top left corner, and stale candidates in
  the other cells.\<close>

definition clue_puzzle :: puzzle where
  "clue_puzzle =
     AList.update (cell_key 1 1) \<lparr>cvalue = Some 5, candidates = []\<rparr> (uniform_puzzle [1, 2, 3])"

lemma cell_key_eq: "cell_key r c = cell_key r' c' \<longleftrightarrow> r = r' \<and> c = c'"
  using cell_key_inj by blast

lemma keys_clue_puzzle: "map fst clue_puzzle = all_cell_refs"
  by (simp add: clue_puzzle_def update_keys keys_uniform_puzzle)

lemma is_puzzle_clue_puzzle: "is_puzzle clue_puzzle"
  by (simp add: is_puzzle_def keys_clue_puzzle distinct_all_cell_refs)

lemma map_of_clue_puzzle:
  "map_of clue_puzzle k =
     (if k = cell_key 1 1 then Some \<lparr>cvalue = Some 5, candidates = []\<rparr>
      else if k \<in> set all_cell_refs then Some \<lparr>cvalue = None, candidates = [1, 2, 3]\<rparr>
      else None)"
  by (simp add: clue_puzzle_def update_conv' map_of_uniform_puzzle)

lemma solved_value_clue_puzzle:
  "solved_value clue_puzzle (cell_key r c) = (if r = 1 \<and> c = 1 then Some 5 else None)"
  by (simp add: solved_value_def map_of_clue_puzzle cell_key_eq)

lemma unit_values_clue_puzzle:
  "unit_values clue_puzzle r c = (if shares_unit r c 1 1 then {5} else {})"
proof -
  have "v \<in> unit_values clue_puzzle r c \<longleftrightarrow> v = 5 \<and> shares_unit r c 1 1" for v
  proof -
    have "v \<in> unit_values clue_puzzle r c \<longleftrightarrow>
        (\<exists>k. k \<in> set (peer_refs r c) \<and> solved_value clue_puzzle k = Some v)"
      by (simp add: unit_values_def set_map_filter Bex_def)
    also have "\<dots> \<longleftrightarrow> (\<exists>r' c'. 1 \<le> r' \<and> r' \<le> 9 \<and> 1 \<le> c' \<and> c' \<le> 9 \<and> shares_unit r c r' c' \<and>
        solved_value clue_puzzle (cell_key r' c') = Some v)"
      unfolding mem_peer_refs by blast
    also have "\<dots> \<longleftrightarrow> v = 5 \<and> shares_unit r c 1 1"
      unfolding solved_value_clue_puzzle by (auto split: if_splits)
    finally show ?thesis .
  qed
  then show ?thesis by auto
qed

lemma upto_1_9: "[1..9] = [1, 2, 3, 4, 5, 6, 7, 8, 9]"
  by (simp add: upto_rec1)

text \<open>
  Claim C1. On a full grid \<^verbatim>\<open>compute_candidates\<close> returns a puzzle with the same keys and
  the same solved values, in which every solved cell has no candidates and every unsolved
  cell has as candidates the digits 1 to 9, in ascending order, that are not the solved value
  of a cell of its row, column or block.
\<close>

theorem compute_candidates_result:
  assumes "is_puzzle p"
  shows "\<exists>p'. compute_candidates p = Inr p' \<and> map fst p' = map fst p \<and>
    (\<forall>r c. 1 \<le> r \<and> r \<le> 9 \<and> 1 \<le> c \<and> c \<le> 9 \<longrightarrow>
       (\<exists>cell'. map_of p' (cell_key r c) = Some cell' \<and>
          cvalue cell' = solved_value p (cell_key r c) \<and>
          unit_values p' r c = unit_values p r c \<and>
          (cvalue cell' \<noteq> None \<longrightarrow> candidates cell' = []) \<and>
          (cvalue cell' = None \<longrightarrow>
             candidates cell' = filter (\<lambda>d. d \<notin> unit_values p' r c) [1..9] \<and>
             set (candidates cell') = {1..9} - unit_values p' r c)))"
proof -
  from compute_candidates_grid[OF assms] obtain p' where
    run: "compute_candidates p = Inr p'" and s: "same_values p p'" and
    res: "\<And>r c cell. 1 \<le> r \<Longrightarrow> r \<le> 9 \<Longrightarrow> 1 \<le> c \<Longrightarrow> c \<le> 9 \<Longrightarrow> map_of p (cell_key r c) = Some cell \<Longrightarrow>
       map_of p' (cell_key r c) =
         Some (cell\<lparr>candidates := if cvalue cell \<noteq> None then []
                                   else filter (\<lambda>d. d \<notin> unit_values p r c) [1..9]\<rparr>)"
    by blast
  have keys: "set (map fst p) = set all_cell_refs" using assms by (simp add: is_puzzle_def)
  have "\<exists>cell'. map_of p' (cell_key r c) = Some cell' \<and>
          cvalue cell' = solved_value p (cell_key r c) \<and>
          unit_values p' r c = unit_values p r c \<and>
          (cvalue cell' \<noteq> None \<longrightarrow> candidates cell' = []) \<and>
          (cvalue cell' = None \<longrightarrow>
             candidates cell' = filter (\<lambda>d. d \<notin> unit_values p' r c) [1..9] \<and>
             set (candidates cell') = {1..9} - unit_values p' r c)"
    if rc: "1 \<le> r" "r \<le> 9" "1 \<le> c" "c \<le> 9" for r c
  proof -
    have "cell_key r c \<in> set (map fst p)" using keys rc by simp
    from map_of_present[OF this] obtain cell where cell: "map_of p (cell_key r c) = Some cell" ..
    define cell' where "cell' = cell\<lparr>candidates := if cvalue cell \<noteq> None then []
                                   else filter (\<lambda>d. d \<notin> unit_values p r c) [1..9]\<rparr>"
    have m: "map_of p' (cell_key r c) = Some cell'" unfolding cell'_def using res[OF rc cell] .
    have v: "cvalue cell' = solved_value p (cell_key r c)"
      by (simp add: cell'_def solved_value_def cell)
    have u: "unit_values p' r c = unit_values p r c" using same_values_unit_values[OF s] .
    have c1: "cvalue cell' \<noteq> None \<longrightarrow> candidates cell' = []" by (simp add: cell'_def)
    have c2: "candidates cell' = filter (\<lambda>d. d \<notin> unit_values p' r c) [1..9]" if "cvalue cell' = None"
      using that by (simp add: cell'_def u)
    have c3: "set (candidates cell') = {1..9} - unit_values p' r c" if "cvalue cell' = None"
      unfolding c2[OF that] by auto
    from m v u c1 c2 c3 show ?thesis by (intro exI[of _ cell']) auto
  qed
  moreover have "map fst p' = map fst p" using s by (simp add: same_values_def)
  ultimately show ?thesis using run by blast
qed

theorem compute_candidates_result_witness:
  "\<exists>p'. compute_candidates clue_puzzle = Inr p' \<and> map fst p' = all_cell_refs \<and>
     map_of p' (cell_key 1 1) = Some \<lparr>cvalue = Some 5, candidates = []\<rparr> \<and>
     map_of p' (cell_key 1 2) = Some \<lparr>cvalue = None, candidates = [1, 2, 3, 4, 6, 7, 8, 9]\<rparr> \<and>
     map_of p' (cell_key 5 5) = Some \<lparr>cvalue = None, candidates = [1, 2, 3, 4, 5, 6, 7, 8, 9]\<rparr>"
proof -
  from compute_candidates_result[OF is_puzzle_clue_puzzle] obtain p' where
    run: "compute_candidates clue_puzzle = Inr p'" and keys: "map fst p' = map fst clue_puzzle" and
    res: "\<And>r c. 1 \<le> r \<and> r \<le> 9 \<and> 1 \<le> c \<and> c \<le> 9 \<Longrightarrow>
       (\<exists>cell'. map_of p' (cell_key r c) = Some cell' \<and>
          cvalue cell' = solved_value clue_puzzle (cell_key r c) \<and>
          unit_values p' r c = unit_values clue_puzzle r c \<and>
          (cvalue cell' \<noteq> None \<longrightarrow> candidates cell' = []) \<and>
          (cvalue cell' = None \<longrightarrow>
             candidates cell' = filter (\<lambda>d. d \<notin> unit_values p' r c) [1..9] \<and>
             set (candidates cell') = {1..9} - unit_values p' r c))"
    by blast
  from res[of 1 1] obtain a where a: "map_of p' (cell_key 1 1) = Some a"
    "cvalue a = Some 5" "candidates a = []"
    by (auto simp: solved_value_clue_puzzle)
  from res[of 1 2] obtain b where b: "map_of p' (cell_key 1 2) = Some b"
    "cvalue b = None" "candidates b = [1, 2, 3, 4, 6, 7, 8, 9]"
    by (auto simp: solved_value_clue_puzzle unit_values_clue_puzzle shares_unit_def upto_1_9)
  from res[of 5 5] obtain c where c: "map_of p' (cell_key 5 5) = Some c"
    "cvalue c = None" "candidates c = [1, 2, 3, 4, 5, 6, 7, 8, 9]"
    by (auto simp: solved_value_clue_puzzle unit_values_clue_puzzle shares_unit_def upto_1_9)
  have "a = \<lparr>cvalue = Some 5, candidates = []\<rparr>" using a(2,3) by (cases a) simp
  moreover have "b = \<lparr>cvalue = None, candidates = [1, 2, 3, 4, 6, 7, 8, 9]\<rparr>"
    using b(2,3) by (cases b) simp
  moreover have "c = \<lparr>cvalue = None, candidates = [1, 2, 3, 4, 5, 6, 7, 8, 9]\<rparr>"
    using c(2,3) by (cases c) simp
  ultimately show ?thesis using run keys a(1) b(1) c(1) by (simp add: keys_clue_puzzle)
qed

section \<open>Running the candidate computation twice\<close>

lemma alist_eqI:
  "map fst xs = map fst ys \<Longrightarrow> distinct (map fst xs) \<Longrightarrow>
     (\<And>k. k \<in> set (map fst xs) \<Longrightarrow> map_of xs k = map_of ys k) \<Longrightarrow> xs = ys"
proof (induction xs arbitrary: ys)
  case Nil
  then show ?case by simp
next
  case (Cons x xs)
  from Cons.prems(1) obtain y ys' where ys: "ys = y # ys'" "fst y = fst x" "map fst xs = map fst ys'"
    by (cases ys) auto
  have "map_of (x # xs) (fst x) = map_of ys (fst x)" using Cons.prems(3)[of "fst x"] by simp
  then have hd: "x = y" using ys(1,2) by (cases x; cases y) simp
  have "map_of xs k = map_of ys' k" if "k \<in> set (map fst xs)" for k
  proof -
    from that Cons.prems(2) have "k \<noteq> fst x" by force
    with Cons.prems(3)[of k] that ys(1) hd show ?thesis by (cases y) auto
  qed
  with Cons.IH[OF ys(3)] Cons.prems(2) have "xs = ys'" by simp
  with hd ys(1) show ?case by simp
qed

text \<open>
  Claim C10. Whenever \<^verbatim>\<open>compute_candidates\<close> returns, running it again on the puzzle it
  returned returns that same puzzle. (The keys of a dictionary are distinct; on a full grid
  the first run does return.)
\<close>

theorem compute_candidates_idempotent:
  assumes "distinct (map fst p)"
    and "compute_candidates p = Inr p'"
  shows "compute_candidates p' = Inr p'"
proof -
  define ks where "ks = map fst p"
  have d: "distinct ks" using assms(1) by (simp add: ks_def)
  have run: "compute_loop p ks = Inr p'" using assms(2) by (simp add: compute_candidates_def ks_def)
  from compute_loop_result[OF d same_values_refl run]
  have s: "same_values p p'" and
    res: "\<forall>k \<in> set ks. \<exists>cell cell'. map_of p k = Some cell \<and> map_of p' k = Some cell' \<and>
        refreshed p k cell = Inr cell'"
    by simp_all
  have keys: "map fst p' = ks" using s by (simp add: same_values_def ks_def)
  have fixed: "\<exists>cell'. map_of p' k = Some cell' \<and> refreshed p' k cell' = Inr cell'" if "k \<in> set ks" for k
  proof -
    from res that obtain cell cell' where c: "map_of p' k = Some cell'" "refreshed p k cell = Inr cell'"
      by blast
    have "refreshed p' k cell' = refreshed p k cell'" using refreshed_same_values[OF s] .
    also have "\<dots> = Inr cell'" using refreshed_again[OF c(2)] .
    finally show ?thesis using c(1) by blast
  qed
  then have "\<forall>k \<in> set ks. \<exists>cell cell'. map_of p' k = Some cell \<and> refreshed p' k cell = Inr cell'"
    by blast
  from compute_loop_returns[OF d same_values_refl this]
  obtain p'' where run2: "compute_loop p' ks = Inr p''" ..
  from compute_loop_result[OF d same_values_refl run2]
  have s2: "same_values p' p''" and
    res2: "\<forall>k \<in> set ks. \<exists>cell cell'. map_of p' k = Some cell \<and> map_of p'' k = Some cell' \<and>
        refreshed p' k cell = Inr cell'"
    by simp_all
  have keys2: "map fst p'' = ks" using s2 keys by (simp add: same_values_def)
  have m: "map_of p'' k = map_of p' k" if "k \<in> set (map fst p'')" for k
  proof -
    have k: "k \<in> set ks" using that unfolding keys2 .
    from res2 k obtain cell cell'' where c: "map_of p' k = Some cell" "map_of p'' k = Some cell''"
      "refreshed p' k cell = Inr cell''" by blast
    from fixed[OF k] c(1) have "refreshed p' k cell = Inr cell" by simp
    with c show ?thesis by simp
  qed
  have k2: "map fst p'' = map fst p'" using keys keys2 by simp
  have d2: "distinct (map fst p'')" using d unfolding keys2 .
  have "p'' = p'" using alist_eqI[OF k2 d2 m] .
  with run2 keys show ?thesis by (simp add: compute_candidates_def)
qed

theorem compute_candidates_idempotent_witness:
  "\<exists>p'. compute_candidates clue_puzzle = Inr p' \<and> compute_candidates p' = Inr p' \<and>
     map_of p' (cell_key 1 2) = Some \<lparr>cvalue = None, candidates = [1, 2, 3, 4, 6, 7, 8, 9]\<rparr>"
proof -
  from compute_candidates_grid[OF is_puzzle_clue_puzzle] obtain p' where
    run: "compute_candidates clue_puzzle = Inr p'" and
    res: "\<And>r c cell. 1 \<le> r \<and> r \<le> 9 \<and> 1 \<le> c \<and> c \<le> 9 \<and> map_of clue_puzzle (cell_key r c) = Some cell \<Longrightarrow>
       map_of p' (cell_key r c) =
         Some (cell\<lparr>candidates := if cvalue cell \<noteq> None then []
                                   else filter (\<lambda>d. d \<notin> unit_values clue_puzzle r c) [1..9]\<rparr>)"
    by blast
  have "distinct (map fst clue_puzzle)"
    by (simp add: keys_clue_puzzle distinct_all_cell_refs)
  from compute_candidates_idempotent[OF this run]
  have "compute_candidates p' = Inr p'" .
  moreover have "map_of p' (cell_key 1 2) = Some \<lparr>cvalue = None, candidates = [1, 2, 3, 4, 6, 7, 8, 9]\<rparr>"
    using res[of 1 2 "\<lparr>cvalue = None, candidates = [1, 2, 3]\<rparr>"]
    by (simp add: map_of_clue_puzzle cell_key_eq unit_values_clue_puzzle shares_unit_def upto_1_9)
  ultimately show ?thesis using run by blast
qed

section \<open>Solved cells carry no candidates\<close>

lemma refreshed_clear:
  "refreshed p k cell = Inr cell' \<Longrightarrow> cvalue cell' = None \<or> candidates cell' = []"
  by (auto simp: refreshed_def split: if_splits sum.splits)

lemma compute_loop_clear:
  "solved_cells_clear p \<Longrightarrow> compute_loop p ks = Inr p' \<Longrightarrow> solved_cells_clear p'"
proof (induction ks arbitrary: p)
  case Nil
  then show ?case by simp
next
  case (Cons k rest)
  from Cons.prems(2) obtain cell cell' where
    cell': "refreshed p k cell = Inr cell'" and
    run: "compute_loop (AList.update k cell' p) rest = Inr p'"
    unfolding compute_loop_Cons by (auto split: option.splits sum.splits)
  from solved_cells_clear_update[OF Cons.prems(1) refreshed_clear[OF cell']]
  have "solved_cells_clear (AList.update k cell' p)" .
  from Cons.IH[OF this run] show ?case .
qed

lemma eliminate_digit_py_evolves: "eliminate_digit_py p c d = Inr p' \<Longrightarrow> evolves p p'"
  by (auto simp: eliminate_digit_py_def split: option.splits if_splits
      intro: evolves.same evolves.narrow)

lemma eliminate_digit_evolves:
  assumes "eliminate_digit n p c d = Some (Inr p')"
  shows "evolves p p'"
proof (cases "map_of p c")
  case None
  with assms show ?thesis by (simp add: eliminate_digit_def)
next
  case (Some cell)
  show ?thesis
  proof (cases "cvalue cell = None \<and> d \<in> set (candidates cell)")
    case False
    with assms Some show ?thesis
      by (auto simp: eliminate_digit_def evolves.same split: if_splits)
  next
    case True
    define cs where "cs = remove1 d (candidates cell)"
    define p1 where "p1 = AList.update c (cell\<lparr>candidates := cs\<rparr>) p"
    have e1: "evolves p p1" unfolding p1_def
      using evolves.narrow[OF evolves.same Some] True by simp
    show ?thesis
    proof (cases "length cs = 1")
      case False
      with assms Some True have "p' = p1"
        by (simp add: eliminate_digit_def cs_def p1_def Let_def)
      with e1 show ?thesis by simp
    next
      case one: True
      with assms Some True have "assign_digit n p1 c (cs ! 0) = Some (Inr p')"
        by (simp add: eliminate_digit_def cs_def p1_def Let_def)
      from assign_digit_evolves[OF this] have "evolves p1 p'" by simp
      from this e1 show ?thesis by (rule evolves_trans)
    qed
  qed
qed

lemma scan_sweep_evolves:
  "scan_sweep d p ks b = Some (Inr (p', b')) \<Longrightarrow> evolves p p'"
proof (induction ks arbitrary: p b)
  case Nil
  then show ?case by (simp add: evolves.same)
next
  case (Cons k rest)
  show ?case
  proof (cases "map_of p k")
    case None
    with Cons.prems show ?thesis by simp
  next
    case (Some cell)
    show ?thesis
    proof (cases "cvalue cell = None \<and> length (candidates cell) = 1")
      case False
      with Cons.prems Some have "scan_sweep d p rest b = Some (Inr (p', b'))" by auto
      from Cons.IH[OF this] show ?thesis .
    next
      case True
      with Cons.prems Some obtain p1 where
        a: "assign_digit d p k (candidates cell ! 0) = Some (Inr p1)" and
        r: "scan_sweep d p1 rest True = Some (Inr (p', b'))"
        by (auto split: option.splits sum.splits)
      from assign_digit_evolves[OF a] have "evolves p p1" by simp
      with Cons.IH[OF r] show ?thesis by (rule evolves_trans)
    qed
  qed
qed

lemma scan_and_assign_evolves:
  "scan_and_assign d n p = Some (Inr p') \<Longrightarrow> evolves p p'"
proof (induction n arbitrary: p)
  case 0
  then show ?case by simp
next
  case (Suc n)
  from Suc.prems obtain p1 b where
    s: "scan_sweep d p (map fst p) False = Some (Inr (p1, b))" and
    r: "if b then scan_and_assign d n p1 = Some (Inr p') else p' = p1"
    by (auto split: option.splits sum.splits if_splits)
  have e1: "evolves p p1" using scan_sweep_evolves[OF s] .
  show ?case
  proof (cases b)
    case True
    with r have "scan_and_assign d n p1 = Some (Inr p')" by simp
    from Suc.IH[OF this] e1 show ?thesis by (rule evolves_trans)
  next
    case False
    with r e1 show ?thesis by simp
  qed
qed

text \<open>The sweeps end: a sweep that reports progress has solved a cell.\<close>

lemma scan_sweep_returns:
  assumes "closed_keys ks"
  shows "map fst p = ks \<Longrightarrow> unsolved_count p \<le> d \<Longrightarrow> set cs \<subseteq> set ks \<Longrightarrow>
     \<exists>p' b'. scan_sweep d p cs b = Some (Inr (p', b')) \<and> evolves p p' \<and>
        (b' \<longrightarrow> b \<or> unsolved_count p' < unsolved_count p)"
proof (induction cs arbitrary: p b)
  case Nil
  then show ?case by (simp add: evolves.same)
next
  case (Cons k rest)
  have rest: "set rest \<subseteq> set ks" using Cons.prems(3) by simp
  have "k \<in> set (map fst p)" using Cons.prems(1,3) by simp
  from map_of_present[OF this] obtain cell where cell: "map_of p k = Some cell" ..
  show ?case
  proof (cases "cvalue cell = None \<and> length (candidates cell) = 1")
    case False
    from Cons.IH[OF Cons.prems(1,2) rest, of b] obtain p' b' where
      "scan_sweep d p rest b = Some (Inr (p', b'))" "evolves p p'"
      "b' \<longrightarrow> b \<or> unsolved_count p' < unsolved_count p"
      by blast
    moreover from this(1) False cell have "scan_sweep d p (k # rest) b = Some (Inr (p', b'))"
      by auto
    ultimately show ?thesis by blast
  next
    case True
    have ck: "closed_keys (map fst p)" using assms Cons.prems(1) by simp
    have mem: "candidates cell ! 0 \<in> set (candidates cell)"
      using sole_candidate_mem True by blast
    from assign_digit_returns[OF ck Cons.prems(2) cell _ mem] True
    obtain p1 where a: "assign_digit d p k (candidates cell ! 0) = Some (Inr p1)" by auto
    from assign_digit_evolves[OF a]
    have e1: "evolves p p1" and c1: "unsolved_count p1 < unsolved_count p" by simp_all
    have k1: "map fst p1 = ks" using evolves_keys[OF e1] Cons.prems(1) by simp
    have d1: "unsolved_count p1 \<le> d" using c1 Cons.prems(2) by simp
    from Cons.IH[OF k1 d1 rest, of True] obtain p' b' where
      r: "scan_sweep d p1 rest True = Some (Inr (p', b'))" and e2: "evolves p1 p'"
      by blast
    have "evolves p p'" using e2 e1 by (rule evolves_trans)
    moreover have "unsolved_count p' < unsolved_count p" using evolves_count[OF e2] c1 by simp
    moreover have "scan_sweep d p (k # rest) b = Some (Inr (p', b'))"
      using cell True a r by simp
    ultimately show ?thesis by blast
  qed
qed

lemma scan_and_assign_returns:
  "closed_keys (map fst p) \<Longrightarrow> unsolved_count p \<le> d \<Longrightarrow> unsolved_count p < n \<Longrightarrow>
     \<exists>p'. scan_and_assign d n p = Some (Inr p')"
proof (induction n arbitrary: p)
  case 0
  then show ?case by simp
next
  case (Suc n)
  from scan_sweep_returns[OF Suc.prems(1) refl Suc.prems(2) subset_refl, of False]
  obtain p1 b where s: "scan_sweep d p (map fst p) False = Some (Inr (p1, b))" and
    e1: "evolves p p1" and c1: "b \<longrightarrow> unsolved_count p1 < unsolved_count p"
    by auto
  show ?case
  proof (cases b)
    case False
    with s show ?thesis by simp
  next
    case True
    have "closed_keys (map fst p1)" using evolves_keys[OF e1] Suc.prems(1) by simp
    moreover have "unsolved_count p1 \<le> d" using evolves_count[OF e1] Suc.prems(2) by simp
    moreover have "unsolved_count p1 < n" using c1 True Suc.prems(3) by simp
    ultimately obtain p' where "scan_and_assign d n p1 = Some (Inr p')"
      using Suc.IH by blast
    with s True show ?thesis by simp
  qed
qed

lemma solved_cells_clear_uniform_puzzle: "solved_cells_clear (uniform_puzzle cs)"
  by (simp add: solved_cells_clear_def uniform_puzzle_def list_all_iff)

lemma solved_cells_clear_clue_puzzle: "solved_cells_clear clue_puzzle"
  unfolding clue_puzzle_def
  by (rule solved_cells_clear_update[OF solved_cells_clear_uniform_puzzle]) simp

text \<open>
  Claim C4. If every solved cell of a puzzle has an empty candidate list, the same holds of
  the puzzle that \<^verbatim>\<open>compute_candidates\<close>, \<^verbatim>\<open>assign_digit\<close>, either copy of
  \<^verbatim>\<open>eliminate_digit\<close>, or \<^verbatim>\<open>scan_and_assign\<close> returns, at every depth bound.
\<close>

theorem solved_cells_clear_preserved:
  assumes "solved_cells_clear p"
  shows "(\<forall>p'. compute_candidates p = Inr p' \<longrightarrow> solved_cells_clear p') \<and>
    (\<forall>n cell_ref digit p'. assign_digit n p cell_ref digit = Some (Inr p') \<longrightarrow> solved_cells_clear p') \<and>
    (\<forall>n cell_ref digit p'. eliminate_digit n p cell_ref digit = Some (Inr p') \<longrightarrow> solved_cells_clear p') \<and>
    (\<forall>cell_ref digit p'. eliminate_digit_py p cell_ref digit = Inr p' \<longrightarrow> solved_cells_clear p') \<and>
    (\<forall>d n p'. scan_and_assign d n p = Some (Inr p') \<longrightarrow> solved_cells_clear p')"
proof -
  have "solved_cells_clear p'" if "compute_candidates p = Inr p'" for p'
    using compute_loop_clear[OF assms] that by (simp add: compute_candidates_def)
  moreover have "solved_cells_clear p'" if "assign_digit n p c d = Some (Inr p')" for n c d p'
    using assign_digit_evolves[OF that] evolves_clear[OF _ assms] by simp
  moreover have "solved_cells_clear p'" if "eliminate_digit n p c d = Some (Inr p')" for n c d p'
    using evolves_clear[OF eliminate_digit_evolves[OF that] assms] .
  moreover have "solved_cells_clear p'" if "eliminate_digit_py p c d = Inr p'" for c d p'
    using evolves_clear[OF eliminate_digit_py_evolves[OF that] assms] .
  moreover have "solved_cells_clear p'" if "scan_and_assign d n p = Some (Inr p')" for d n p'
    using evolves_clear[OF scan_and_assign_evolves[OF that] assms] .
  ultimately show ?thesis by blast
qed

theorem solved_cells_clear_preserved_witness:
  "solved_cells_clear clue_puzzle \<and>
   (\<exists>p'. compute_candidates clue_puzzle = Inr p' \<and> solved_cells_clear p') \<and>
   (\<exists>p'. assign_digit 81 clue_puzzle (cell_key 1 2) 3 = Some (Inr p') \<and> solved_cells_clear p') \<and>
   (\<exists>p'. eliminate_digit 81 clue_puzzle (cell_key 1 2) 3 = Some (Inr p') \<and> solved_cells_clear p') \<and>
   (\<exists>p'. eliminate_digit_py clue_puzzle (cell_key 1 2) 3 = Inr p' \<and> solved_cells_clear p') \<and>
   (\<exists>p'. scan_and_assign 81 82 clue_puzzle = Some (Inr p') \<and> solved_cells_clear p')"
proof -
  note keep = solved_cells_clear_preserved[OF solved_cells_clear_clue_puzzle]
  have ck: "closed_keys (map fst clue_puzzle)"
    using is_puzzle_closed_keys[OF is_puzzle_clue_puzzle] .
  have n: "unsolved_count clue_puzzle \<le> 81"
    using unsolved_count_le_length[of clue_puzzle] is_puzzle_length[OF is_puzzle_clue_puzzle]
    by simp
  have m: "map_of clue_puzzle (cell_key 1 2) = Some \<lparr>cvalue = None, candidates = [1, 2, 3]\<rparr>"
    by (simp add: map_of_clue_puzzle cell_key_eq)
  obtain p1 where "compute_candidates clue_puzzle = Inr p1"
    using compute_candidates_grid[OF is_puzzle_clue_puzzle] by blast
  with keep have c1: "\<exists>p'. compute_candidates clue_puzzle = Inr p' \<and> solved_cells_clear p'"
    by blast
  obtain p2 where "assign_digit 81 clue_puzzle (cell_key 1 2) 3 = Some (Inr p2)"
    using assign_digit_returns[OF ck n m, of 3] by auto
  with keep have c2: "\<exists>p'. assign_digit 81 clue_puzzle (cell_key 1 2) 3 = Some (Inr p') \<and>
      solved_cells_clear p'" by blast
  obtain p3 where "eliminate_digit 81 clue_puzzle (cell_key 1 2) 3 = Some (Inr p3)"
    by (simp add: eliminate_digit_def m)
  with keep have c3: "\<exists>p'. eliminate_digit 81 clue_puzzle (cell_key 1 2) 3 = Some (Inr p') \<and>
      solved_cells_clear p'" by blast
  obtain p4 where "eliminate_digit_py clue_puzzle (cell_key 1 2) 3 = Inr p4"
    by (simp add: eliminate_digit_py_def m)
  with keep have c4: "\<exists>p'. eliminate_digit_py clue_puzzle (cell_key 1 2) 3 = Inr p' \<and>
      solved_cells_clear p'" by blast
  obtain p5 where "scan_and_assign 81 82 clue_puzzle = Some (Inr p5)"
    using scan_and_assign_returns[OF ck n, of 82] n by auto
  with keep have c5: "\<exists>p'. scan_and_assign 81 82 clue_puzzle = Some (Inr p') \<and>
      solved_cells_clear p'" by blast
  from solved_cells_clear_clue_puzzle c1 c2 c3 c4 c5 show ?thesis by blast
qed

section \<open>Which cell references are accepted\<close>

lemma re_match_cell_Some_iff:
  "(\<exists>g. re_match_cell s = Some g) \<longleftrightarrow>
     (\<exists>g1 g2 rest. g1 \<noteq> [] \<and> list_all is_digit g1 \<and> g2 \<noteq> [] \<and> list_all is_digit g2 \<and>
        s = CHR ''R'' # g1 @ CHR ''C'' # g2 @ rest)"
proof
  assume "\<exists>g. re_match_cell s = Some g"
  then obtain s1 s3 where s: "s = CHR ''R'' # s1" and g1: "takeWhile is_digit s1 \<noteq> []"
    and d: "dropWhile is_digit s1 = CHR ''C'' # s3" and g2: "takeWhile is_digit s3 \<noteq> []"
    by (auto simp: re_match_cell_def Let_def split: list.splits if_splits)
  have "s1 = takeWhile is_digit s1 @ CHR ''C'' # s3"
    using takeWhile_dropWhile_id[of is_digit s1] d by simp
  moreover have "s3 = takeWhile is_digit s3 @ dropWhile is_digit s3" by simp
  ultimately have "s = CHR ''R'' # takeWhile is_digit s1 @ CHR ''C'' # takeWhile is_digit s3 @
      dropWhile is_digit s3"
    using s by simp
  moreover have "list_all is_digit (takeWhile is_digit s1)" "list_all is_digit (takeWhile is_digit s3)"
    by (auto simp: list_all_iff dest: set_takeWhileD)
  ultimately show "\<exists>g1 g2 rest. g1 \<noteq> [] \<and> list_all is_digit g1 \<and> g2 \<noteq> [] \<and> list_all is_digit g2 \<and>
        s = CHR ''R'' # g1 @ CHR ''C'' # g2 @ rest"
    using g1 g2 by blast
next
  assume "\<exists>g1 g2 rest. g1 \<noteq> [] \<and> list_all is_digit g1 \<and> g2 \<noteq> [] \<and> list_all is_digit g2 \<and>
        s = CHR ''R'' # g1 @ CHR ''C'' # g2 @ rest"
  then obtain g1 g2 rest where g1: "g1 \<noteq> []" "list_all is_digit g1"
    and g2: "g2 \<noteq> []" "list_all is_digit g2"
    and s: "s = CHR ''R'' # g1 @ CHR ''C'' # g2 @ rest"
    by blast
  have t1: "takeWhile is_digit (g1 @ CHR ''C'' # g2 @ rest) = g1"
    using takeWhile_digits_stop[OF g1(2) not_digit_C] .
  have d1: "dropWhile is_digit (g1 @ CHR ''C'' # g2 @ rest) = CHR ''C'' # g2 @ rest"
    using dropWhile_digits_stop[OF g1(2) not_digit_C] .
  have "takeWhile is_digit (g2 @ rest) = g2 @ takeWhile is_digit rest"
    using g2(2) by (simp add: list_all_iff)
  with g2(1) have t2: "takeWhile is_digit (g2 @ rest) \<noteq> []" by simp
  show "\<exists>g. re_match_cell s = Some g"
    using g1(1) t2 by (simp add: re_match_cell_def s t1 d1 Let_def)
qed

lemma takeWhile_digits_rest:
  "list_all is_digit g \<Longrightarrow> rest = [] \<or> \<not> is_digit (hd rest) \<Longrightarrow>
     takeWhile is_digit (g @ rest) = g"
  by (cases rest) (simp_all add: takeWhile_digits_all takeWhile_digits_stop)

lemma re_match_cell_iff:
  "re_match_cell s = Some (g1, g2) \<longleftrightarrow>
     g1 \<noteq> [] \<and> list_all is_digit g1 \<and> g2 \<noteq> [] \<and> list_all is_digit g2 \<and>
     (\<exists>rest. (rest = [] \<or> \<not> is_digit (hd rest)) \<and> s = CHR ''R'' # g1 @ CHR ''C'' # g2 @ rest)"
proof
  assume "re_match_cell s = Some (g1, g2)"
  then obtain s1 s3 where s: "s = CHR ''R'' # s1" and g1: "g1 = takeWhile is_digit s1" "g1 \<noteq> []"
    and d: "dropWhile is_digit s1 = CHR ''C'' # s3" and g2: "g2 = takeWhile is_digit s3" "g2 \<noteq> []"
    by (auto simp: re_match_cell_def Let_def split: list.splits if_splits)
  define rest where "rest = dropWhile is_digit s3"
  have "s1 = g1 @ CHR ''C'' # s3"
    using takeWhile_dropWhile_id[of is_digit s1] d g1(1) by simp
  moreover have "s3 = g2 @ rest" by (simp add: g2(1) rest_def)
  ultimately have "s = CHR ''R'' # g1 @ CHR ''C'' # g2 @ rest" using s by simp
  moreover have "rest = [] \<or> \<not> is_digit (hd rest)"
    unfolding rest_def using hd_dropWhile[of is_digit s3] by blast
  moreover have "list_all is_digit g1" "list_all is_digit g2"
    unfolding g1(1) g2(1) by (auto simp: list_all_iff dest: set_takeWhileD)
  ultimately show "g1 \<noteq> [] \<and> list_all is_digit g1 \<and> g2 \<noteq> [] \<and> list_all is_digit g2 \<and>
     (\<exists>rest. (rest = [] \<or> \<not> is_digit (hd rest)) \<and> s = CHR ''R'' # g1 @ CHR ''C'' # g2 @ rest)"
    using g1(2) g2(2) by blast
next
  assume "g1 \<noteq> [] \<and> list_all is_digit g1 \<and> g2 \<noteq> [] \<and> list_all is_digit g2 \<and>
     (\<exists>rest. (rest = [] \<or> \<not> is_digit (hd rest)) \<and> s = CHR ''R'' # g1 @ CHR ''C'' # g2 @ rest)"
  then obtain rest where g1: "g1 \<noteq> []" "list_all is_digit g1"
    and g2: "g2 \<noteq> []" "list_all is_digit g2"
    and rest: "rest = [] \<or> \<not> is_digit (hd rest)"
    and s: "s = CHR ''R'' # g1 @ CHR ''C'' # g2 @ rest"
    by blast
  have t1: "takeWhile is_digit (g1 @ CHR ''C'' # g2 @ rest) = g1"
    using takeWhile_digits_stop[OF g1(2) not_digit_C] .
  have d1: "dropWhile is_digit (g1 @ CHR ''C'' # g2 @ rest) = CHR ''C'' # g2 @ rest"
    using dropWhile_digits_stop[OF g1(2) not_digit_C] .
  have t2: "takeWhile is_digit (g2 @ rest) = g2"
    using takeWhile_digits_rest[OF g2(2) rest] .
  show "re_match_cell s = Some (g1, g2)"
    using g1(1) g2(1) by (simp add: re_match_cell_def s t1 d1 t2 Let_def)
qed

lemma get_units_for_cell_Inl:
  "get_units_for_cell s = Inl e \<longleftrightarrow>
     e = InvalidCellReference \<and> re_match_cell s = None \<or>
     e = IntDigitsLimit \<and>
       (\<exists>g1 g2. re_match_cell s = Some (g1, g2) \<and>
          (max_str_digits < length g1 \<or> max_str_digits < length g2))"
  by (cases "re_match_cell s") (auto simp: get_units_for_cell_def Let_def split: if_splits)

lemma get_units_for_cell_suffix:
  assumes "0 \<le> r" "0 \<le> c" and "rest = [] \<or> \<not> is_digit (hd rest)"
  shows "get_units_for_cell (cell_key r c @ rest) = get_units_for_cell (cell_key r c)"
proof -
  have g: "py_str r \<noteq> []" "list_all is_digit (py_str r)" "py_str c \<noteq> []" "list_all is_digit (py_str c)"
    using assms(1,2) by (simp_all add: py_str_nonneg str_nat_nonempty str_nat_digits)
  have "cell_key r c @ rest = CHR ''R'' # py_str r @ CHR ''C'' # py_str c @ rest"
    by (simp add: cell_key_def)
  with g assms(3) have "re_match_cell (cell_key r c @ rest) = Some (py_str r, py_str c)"
    unfolding re_match_cell_iff by blast
  then show ?thesis
    by (simp add: get_units_for_cell_def re_match_cell_key[OF assms(1,2)])
qed

lemma char_of_digit:
  "char_of (48::nat) = CHR ''0''" "char_of (49::nat) = CHR ''1''" "char_of (50::nat) = CHR ''2''"
  "char_of (51::nat) = CHR ''3''" "char_of (52::nat) = CHR ''4''" "char_of (53::nat) = CHR ''5''"
  "char_of (54::nat) = CHR ''6''" "char_of (55::nat) = CHR ''7''" "char_of (56::nat) = CHR ''8''"
  "char_of (57::nat) = CHR ''9''"
  by (simp_all add: char_of_def bit_0)

lemma cell_key_literal: "cell_key 0 0 = ''R0C0''" "cell_key 4 1 = ''R4C1''"
  by (simp_all add: cell_key_def py_str_def str_nat.simps digit_char_def char_of_digit)

text \<open>
  Claim C5, as the code has it on strings of 8-bit characters.
  \<^verbatim>\<open>get_units_for_cell\<close> fails in two cases only: with the
  error for an invalid cell reference on the strings that do not start with \<^verbatim>\<open>R\<close>, one or
  more digits, \<^verbatim>\<open>C\<close>, one or more digits; and with the error of \<^verbatim>\<open>int()\<close> on the strings
  that do, when the first or the second run of digits, taken whole, has more than 4300
  digits. The digits need not be 1 to 9. On each of the 81 keys \<^verbatim>\<open>R<1-9>C<1-9>\<close> it
  returns the row, the column and the block of the cell, nine keys each, all of them keys of
  the grid, and it returns the same when the key is followed by text that does not start
  with a digit.
\<close>

theorem get_units_for_cell_fails_iff:
  "(get_units_for_cell s = Inl e \<longleftrightarrow>
      e = InvalidCellReference \<and>
      \<not> (\<exists>g1 g2 rest. g1 \<noteq> [] \<and> list_all is_digit g1 \<and> g2 \<noteq> [] \<and> list_all is_digit g2 \<and>
            s = CHR ''R'' # g1 @ CHR ''C'' # g2 @ rest) \<or>
      e = IntDigitsLimit \<and>
      (\<exists>g1 g2 rest. g1 \<noteq> [] \<and> list_all is_digit g1 \<and> g2 \<noteq> [] \<and> list_all is_digit g2 \<and>
            (rest = [] \<or> \<not> is_digit (hd rest)) \<and>
            s = CHR ''R'' # g1 @ CHR ''C'' # g2 @ rest \<and>
            (4300 < length g1 \<or> 4300 < length g2))) \<and>
   (1 \<le> r \<and> r \<le> 9 \<and> 1 \<le> c \<and> c \<le> 9 \<longrightarrow>
      (\<exists>us. get_units_for_cell (cell_key r c) = Inr us \<and>
         row us = map (\<lambda>c'. cell_key r c') [1..9] \<and>
         col us = map (\<lambda>r'. cell_key r' c) [1..9] \<and>
         block us = concat (map (\<lambda>r'. map (\<lambda>c'. cell_key r' c')
                       [3 * ((c - 1) div 3) + 1..3 * ((c - 1) div 3) + 3])
                       [3 * ((r - 1) div 3) + 1..3 * ((r - 1) div 3) + 3]) \<and>
         length (row us) = 9 \<and> length (col us) = 9 \<and> length (block us) = 9 \<and>
         set (row us) \<union> set (col us) \<union> set (block us) \<subseteq> set all_cell_refs \<and>
         (\<forall>rest. rest = [] \<or> \<not> is_digit (hd rest) \<longrightarrow>
            get_units_for_cell (cell_key r c @ rest) = Inr us)))"
proof -
  have none: "re_match_cell s = None \<longleftrightarrow>
      \<not> (\<exists>g1 g2 rest. g1 \<noteq> [] \<and> list_all is_digit g1 \<and> g2 \<noteq> [] \<and> list_all is_digit g2 \<and>
            s = CHR ''R'' # g1 @ CHR ''C'' # g2 @ rest)"
    unfolding re_match_cell_Some_iff[symmetric] by (cases "re_match_cell s") auto
  have long: "(\<exists>g1 g2. re_match_cell s = Some (g1, g2) \<and>
          (max_str_digits < length g1 \<or> max_str_digits < length g2)) \<longleftrightarrow>
      (\<exists>g1 g2 rest. g1 \<noteq> [] \<and> list_all is_digit g1 \<and> g2 \<noteq> [] \<and> list_all is_digit g2 \<and>
            (rest = [] \<or> \<not> is_digit (hd rest)) \<and>
            s = CHR ''R'' # g1 @ CHR ''C'' # g2 @ rest \<and>
            (4300 < length g1 \<or> 4300 < length g2))"
    unfolding re_match_cell_iff max_str_digits_def by blast
  have fails: "get_units_for_cell s = Inl e \<longleftrightarrow>
      e = InvalidCellReference \<and>
      \<not> (\<exists>g1 g2 rest. g1 \<noteq> [] \<and> list_all is_digit g1 \<and> g2 \<noteq> [] \<and> list_all is_digit g2 \<and>
            s = CHR ''R'' # g1 @ CHR ''C'' # g2 @ rest) \<or>
      e = IntDigitsLimit \<and>
      (\<exists>g1 g2 rest. g1 \<noteq> [] \<and> list_all is_digit g1 \<and> g2 \<noteq> [] \<and> list_all is_digit g2 \<and>
            (rest = [] \<or> \<not> is_digit (hd rest)) \<and>
            s = CHR ''R'' # g1 @ CHR ''C'' # g2 @ rest \<and>
            (4300 < length g1 \<or> 4300 < length g2))"
    unfolding get_units_for_cell_Inl none long ..
  have ok: "\<exists>us. get_units_for_cell (cell_key r c) = Inr us \<and>
         row us = map (\<lambda>c'. cell_key r c') [1..9] \<and>
         col us = map (\<lambda>r'. cell_key r' c) [1..9] \<and>
         block us = concat (map (\<lambda>r'. map (\<lambda>c'. cell_key r' c')
                       [3 * ((c - 1) div 3) + 1..3 * ((c - 1) div 3) + 3])
                       [3 * ((r - 1) div 3) + 1..3 * ((r - 1) div 3) + 3]) \<and>
         length (row us) = 9 \<and> length (col us) = 9 \<and> length (block us) = 9 \<and>
         set (row us) \<union> set (col us) \<union> set (block us) \<subseteq> set all_cell_refs \<and>
         (\<forall>rest. rest = [] \<or> \<not> is_digit (hd rest) \<longrightarrow>
            get_units_for_cell (cell_key r c @ rest) = Inr us)"
    if rc: "1 \<le> r" "r \<le> 9" "1 \<le> c" "c \<le> 9"
  proof -
    obtain us where us: "get_units_for_cell (cell_key r c) = Inr us"
      using get_units_for_cell_key[of r c] rc by simp
    have eqs: "3 * ((x - 1) div 3) + 1 = (x - 1) div 3 * 3 + 1"
      "3 * ((x - 1) div 3) + 3 = (x - 1) div 3 * 3 + 1 + 3 - 1" for x :: int
      by simp_all
    have parts: "row us = map (\<lambda>c'. cell_key r c') [1..9]"
      "col us = map (\<lambda>r'. cell_key r' c) [1..9]"
      "block us = concat (map (\<lambda>r'. map (\<lambda>c'. cell_key r' c')
                       [3 * ((c - 1) div 3) + 1..3 * ((c - 1) div 3) + 3])
                       [3 * ((r - 1) div 3) + 1..3 * ((r - 1) div 3) + 3])"
      using us get_units_for_cell_key[of r c] rc unfolding eqs by auto
    have len: "length (row us) = 9" "length (col us) = 9" "length (block us) = 9"
      unfolding parts by (simp_all add: length_concat comp_def sum_list_triv del: upto_rec_numeral)
    have grid: "set (row us) \<union> set (col us) \<union> set (block us) \<subseteq> set all_cell_refs"
      using units_in_grid[OF rc us] by (simp add: units_values_def)
    have "get_units_for_cell (cell_key r c @ rest) = Inr us"
      if "rest = [] \<or> \<not> is_digit (hd rest)" for rest
      using get_units_for_cell_suffix[OF _ _ that, of r c] rc(1,3) us by simp
    then have "\<forall>rest. rest = [] \<or> \<not> is_digit (hd rest) \<longrightarrow>
            get_units_for_cell (cell_key r c @ rest) = Inr us" by blast
    with us parts len grid show ?thesis by blast
  qed
  from fails ok show ?thesis by blast
qed

theorem get_units_for_cell_fails_iff_witness:
  "get_units_for_cell ''R4'' = Inl InvalidCellReference \<and>
   get_units_for_cell (CHR ''R'' # replicate 4301 CHR ''0'' @ ''C1'') = Inl IntDigitsLimit \<and>
   (\<exists>us. get_units_for_cell ''R4C1'' = Inr us \<and>
      row us = map (\<lambda>c'. cell_key 4 c') [1..9] \<and>
      col us = map (\<lambda>r'. cell_key r' 1) [1..9] \<and>
      block us = concat (map (\<lambda>r'. map (\<lambda>c'. cell_key r' c') [1..3]) [4..6]) \<and>
      length (row us) = 9 \<and> length (col us) = 9 \<and> length (block us) = 9 \<and>
      set (row us) \<union> set (col us) \<union> set (block us) \<subseteq> set all_cell_refs \<and>
      get_units_for_cell ''R4C1xyz'' = Inr us)"
proof -
  have short: "\<not> (\<exists>g1 g2 rest. g1 \<noteq> [] \<and> list_all is_digit g1 \<and> g2 \<noteq> [] \<and> list_all is_digit g2 \<and>
            ''R4'' = CHR ''R'' # g1 @ CHR ''C'' # g2 @ rest)"
    by (auto simp: append_eq_Cons_conv Cons_eq_append_conv is_digit_def)
  have a: "get_units_for_cell ''R4'' = Inl InvalidCellReference"
    using get_units_for_cell_fails_iff[of "''R4''" InvalidCellReference 4 1] short by blast
  have "replicate 4301 CHR ''0'' \<noteq> [] \<and> list_all is_digit (replicate 4301 CHR ''0'') \<and>
      ''1'' \<noteq> [] \<and> list_all is_digit ''1'' \<and> ([] = [] \<or> \<not> is_digit (hd [])) \<and>
      CHR ''R'' # replicate 4301 CHR ''0'' @ ''C1'' =
        CHR ''R'' # replicate 4301 CHR ''0'' @ CHR ''C'' # ''1'' @ [] \<and>
      (4300 < length (replicate 4301 CHR ''0'') \<or> 4300 < length ''1'')"
    by (simp add: list_all_iff is_digit_def)
  then have long: "\<exists>g1 g2 rest. g1 \<noteq> [] \<and> list_all is_digit g1 \<and> g2 \<noteq> [] \<and> list_all is_digit g2 \<and>
            (rest = [] \<or> \<not> is_digit (hd rest)) \<and>
            CHR ''R'' # replicate 4301 CHR ''0'' @ ''C1'' = CHR ''R'' # g1 @ CHR ''C'' # g2 @ rest \<and>
            (4300 < length g1 \<or> 4300 < length g2)"
    by blast
  have b: "get_units_for_cell (CHR ''R'' # replicate 4301 CHR ''0'' @ ''C1'') = Inl IntDigitsLimit"
    using get_units_for_cell_fails_iff[of "CHR ''R'' # replicate 4301 CHR ''0'' @ ''C1''"
        IntDigitsLimit 4 1] long by blast
  from get_units_for_cell_fails_iff[of "''R4''" InvalidCellReference 4 1]
  obtain us where us: "get_units_for_cell (cell_key 4 1) = Inr us"
      "row us = map (\<lambda>c'. cell_key 4 c') [1..9]"
      "col us = map (\<lambda>r'. cell_key r' 1) [1..9]"
      "block us = concat (map (\<lambda>r'. map (\<lambda>c'. cell_key r' c')
                       [3 * ((1 - 1) div 3) + 1..3 * ((1 - 1) div 3) + 3])
                       [3 * ((4 - 1) div 3) + 1..3 * ((4 - 1) div 3) + 3])"
      "length (row us) = 9" "length (col us) = 9" "length (block us) = 9"
      "set (row us) \<union> set (col us) \<union> set (block us) \<subseteq> set all_cell_refs"
      "\<forall>rest. rest = [] \<or> \<not> is_digit (hd rest) \<longrightarrow>
            get_units_for_cell (cell_key 4 1 @ rest) = Inr us"
    by auto
  have "get_units_for_cell (cell_key 4 1 @ ''xyz'') = Inr us"
    using us(9) by (simp add: is_digit_def)
  then have c: "get_units_for_cell ''R4C1xyz'' = Inr us" by (simp add: cell_key_literal)
  have d: "block us = concat (map (\<lambda>r'. map (\<lambda>c'. cell_key r' c') [1..3]) [4..6])"
    using us(4) by simp
  from a b c d us(1-3,5-8) show ?thesis by (auto simp: cell_key_literal)
qed

text \<open>As stated, claim C5 is refuted by \<^verbatim>\<open>R0C0\<close>, which is not one of the 81 keys and for
  which \<^verbatim>\<open>get_units_for_cell\<close> returns units.\<close>

theorem get_units_for_cell_accepts_R0C0:
  "''R0C0'' \<notin> set all_cell_refs \<and>
   get_units_for_cell ''R0C0'' =
     Inr \<lparr>row = [''R0C1'', ''R0C2'', ''R0C3'', ''R0C4'', ''R0C5'', ''R0C6'', ''R0C7'', ''R0C8'', ''R0C9''],
          col = [''R1C0'', ''R2C0'', ''R3C0'', ''R4C0'', ''R5C0'', ''R6C0'', ''R7C0'', ''R8C0'', ''R9C0''],
          block = [''R-2C-2'', ''R-2C-1'', ''R-2C0'', ''R-1C-2'', ''R-1C-1'', ''R-1C0'',
                   ''R0C-2'', ''R0C-1'', ''R0C0'']\<rparr>"
proof -
  have "''R0C0'' \<notin> set all_cell_refs"
    using cell_key_in_grid[of 0 0] by (simp add: cell_key_literal)
  moreover have "get_units_for_cell ''R0C0'' =
     Inr \<lparr>row = [''R0C1'', ''R0C2'', ''R0C3'', ''R0C4'', ''R0C5'', ''R0C6'', ''R0C7'', ''R0C8'', ''R0C9''],
          col = [''R1C0'', ''R2C0'', ''R3C0'', ''R4C0'', ''R5C0'', ''R6C0'', ''R7C0'', ''R8C0'', ''R9C0''],
          block = [''R-2C-2'', ''R-2C-1'', ''R-2C0'', ''R-1C-2'', ''R-1C-1'', ''R-1C0'',
                   ''R0C-2'', ''R0C-1'', ''R0C0'']\<rparr>"
    using get_units_for_cell_key[of 0 0]
    by (simp add: cell_key_def py_str_def str_nat.simps digit_char_def char_of_digit upto_rec1)
  ultimately show ?thesis by simp
qed

section \<open>Which unit references are accepted\<close>





lemma get_unit_Cons:
  "get_unit p (tag # rest) =
     (case py_int rest of
        None \<Rightarrow> Inl InvalidUnitReference
      | Some idx \<Rightarrow> (case unit_keys (upper tag) idx of Inl e \<Rightarrow> Inl e | Inr keys \<Rightarrow> Inr (select_keys p keys)))"
  by (simp add: get_unit_def)





lemma literal_body_replicate:
  "is_digit d \<Longrightarrow> literal_body prev (replicate n d) \<longleftrightarrow> prev \<or> 0 < n"
  by (induction n arbitrary: prev) simp_all


lemma upper_literal:
  "upper CHR ''R'' = CHR ''R''" "upper CHR ''C'' = CHR ''C''" "upper CHR ''B'' = CHR ''B''"
  "upper CHR ''X'' = CHR ''X''"
  by (simp_all add: upper_def)




section \<open>The 27 units and the loops of the checker\<close>

text \<open>The 27 units of the grid, as lists of keys: the rows 1 to 9, the columns 1 to 9 and
  the blocks 1 to 9, numbered from left to right and from top to bottom.\<close>

definition grid_units :: "string list list" where
  "grid_units =
     map (\<lambda>i. map (\<lambda>c. cell_key i c) [1..9]) [1..9] @
     map (\<lambda>i. map (\<lambda>r. cell_key r i) [1..9]) [1..9] @
     map (\<lambda>b. concat (map (\<lambda>r. map (\<lambda>c. cell_key r c)
                  [3 * ((b - 1) mod 3) + 1..3 * ((b - 1) mod 3) + 3])
                  [3 * ((b - 1) div 3) + 1..3 * ((b - 1) div 3) + 3])) [1..9]"

lemma digit_cases:
  "1 \<le> (i::int) \<Longrightarrow> i \<le> 9 \<Longrightarrow>
     i = 1 \<or> i = 2 \<or> i = 3 \<or> i = 4 \<or> i = 5 \<or> i = 6 \<or> i = 7 \<or> i = 8 \<or> i = 9"
  by arith

lemma py_int_py_str:
  assumes "1 \<le> i" "i \<le> 9"
  shows "py_int (py_str i) = Some i"
  using digit_cases[OF assms]
  by (elim disjE)
     (simp_all add: py_str_def str_nat.simps digit_char_def char_of_digit py_int_def strip_def
        is_space_def is_digit_def int_of_digits_def digit_val_def max_str_digits_def)

lemma get_unit_row:
  "1 \<le> i \<Longrightarrow> i \<le> 9 \<Longrightarrow>
     get_unit p (CHR ''R'' # py_str i) = Inr (select_keys p (map (\<lambda>c. cell_key i c) [1..9]))"
  by (simp add: get_unit_Cons py_int_py_str upper_literal unit_keys_def del: upto_rec_numeral)

lemma get_unit_col:
  "1 \<le> i \<Longrightarrow> i \<le> 9 \<Longrightarrow>
     get_unit p (CHR ''C'' # py_str i) = Inr (select_keys p (map (\<lambda>r. cell_key r i) [1..9]))"
  by (simp add: get_unit_Cons py_int_py_str upper_literal unit_keys_def del: upto_rec_numeral)

lemma get_unit_block:
  assumes "1 \<le> b" "b \<le> 9"
  shows "get_unit p (CHR ''B'' # py_str b) =
     Inr (select_keys p (concat (map (\<lambda>r. map (\<lambda>c. cell_key r c)
                  [3 * ((b - 1) mod 3) + 1..3 * ((b - 1) mod 3) + 3])
                  [3 * ((b - 1) div 3) + 1..3 * ((b - 1) div 3) + 3])))"
proof -
  have eqs: "3 * ((b - 1) mod 3) + 1 = (b - 1) mod 3 * 3 + 1"
    "3 * ((b - 1) mod 3) + 3 = (b - 1) mod 3 * 3 + 1 + 3 - 1"
    "3 * ((b - 1) div 3) + 1 = (b - 1) div 3 * 3 + 1"
    "3 * ((b - 1) div 3) + 3 = (b - 1) div 3 * 3 + 1 + 3 - 1"
    by simp_all
  show ?thesis
    unfolding eqs
    by (simp add: get_unit_Cons py_int_py_str[OF assms] upper_literal unit_keys_def Let_def
        del: upto_rec_numeral)
qed

lemma in_digits: "i \<in> set [1..9] \<longleftrightarrow> 1 \<le> i \<and> i \<le> 9"
  by simp

lemma unit_refs_units:
  "map (get_unit p) unit_refs = map (\<lambda>ks. Inr (select_keys p ks)) grid_units"
  unfolding unit_refs_def grid_units_def map_append map_map
  by (intro arg_cong2[where f = append] map_cong refl)
     (simp_all only: in_digits comp_def get_unit_row get_unit_col get_unit_block)

lemma select_keys_Cons:
  "select_keys p (k # ks) =
     (case map_of p k of None \<Rightarrow> [] | Some cell \<Rightarrow> [(k, cell)]) @ select_keys p ks"
  by (simp add: select_keys_def)

lemma map_filter_append:
  "List.map_filter f (xs @ ys) = List.map_filter f xs @ List.map_filter f ys"
  by (simp add: List.map_filter_def)

lemma solved_of_select_keys:
  "List.map_filter (\<lambda>kc. cvalue (snd kc)) (select_keys p ks) = List.map_filter (solved_value p) ks"
proof (induction ks)
  case Nil
  show ?case by (simp add: select_keys_def map_filter_simps)
next
  case (Cons k ks)
  have "List.map_filter (solved_value p) (k # ks) =
      (case solved_value p k of None \<Rightarrow> [] | Some v \<Rightarrow> [v]) @ List.map_filter (solved_value p) ks"
    by (simp add: map_filter_simps split: option.splits)
  moreover have "List.map_filter (\<lambda>kc. cvalue (snd kc))
        (case map_of p k of None \<Rightarrow> [] | Some cell \<Rightarrow> [(k, cell)]) =
      (case solved_value p k of None \<Rightarrow> [] | Some v \<Rightarrow> [v])"
    by (simp add: solved_value_def map_filter_simps split: option.splits)
  ultimately show ?case
    unfolding select_keys_Cons map_filter_append Cons.IH by simp
qed

lemma set_select_keys:
  "set (select_keys p ks) = {(k, cell). k \<in> set ks \<and> map_of p k = Some cell}"
  by (auto simp: select_keys_def split: option.splits)

lemma seen_loop_iff:
  "seen_loop seen cells \<longleftrightarrow>
     distinct (List.map_filter (\<lambda>kc. cvalue (snd kc)) cells) \<and>
     (\<forall>d \<in> set (List.map_filter (\<lambda>kc. cvalue (snd kc)) cells). seen d = None)"
proof (induction cells arbitrary: seen)
  case Nil
  show ?case by (simp add: map_filter_simps)
next
  case (Cons kc cells)
  obtain key cell where kc: "kc = (key, cell)" by (cases kc)
  show ?case
  proof (cases "cvalue cell")
    case None
    with Cons kc show ?thesis by (simp add: map_filter_simps)
  next
    case (Some digit)
    define L where "L = List.map_filter (\<lambda>kc. cvalue (snd kc)) cells"
    have IH: "seen_loop (seen(digit \<mapsto> key)) cells \<longleftrightarrow>
        distinct L \<and> digit \<notin> set L \<and> (\<forall>d \<in> set L. seen d = None)"
      unfolding Cons[of "seen(digit \<mapsto> key)"] L_def[symmetric] by auto
    have m: "List.map_filter (\<lambda>kc. cvalue (snd kc)) (kc # cells) = digit # L"
      by (simp add: kc Some L_def map_filter_simps)
    have s: "seen_loop seen (kc # cells) \<longleftrightarrow>
        seen digit = None \<and> seen_loop (seen(digit \<mapsto> key)) cells"
      by (simp add: kc Some)
    show ?thesis unfolding m s IH by auto
  qed
qed

lemma strict_loop_units:
  "map (get_unit p) refs = map (\<lambda>ks. Inr (select_keys p ks)) kss \<Longrightarrow>
     strict_loop p refs = Inr (list_all (\<lambda>ks. seen_loop Map.empty (select_keys p ks)) kss)"
proof (induction refs arbitrary: kss)
  case Nil
  then show ?case by simp
next
  case (Cons u refs)
  then obtain ks kss' where kss: "kss = ks # kss'" "get_unit p u = Inr (select_keys p ks)"
    "map (get_unit p) refs = map (\<lambda>ks. Inr (select_keys p ks)) kss'"
    by (cases kss) auto
  from Cons.IH[OF kss(3)] kss(1,2) show ?case by simp
qed

lemma candidate_loop_units:
  "map (get_unit p) refs = map (\<lambda>ks. Inr (select_keys p ks)) kss \<Longrightarrow>
     candidate_loop p refs = Inr (list_all (\<lambda>ks. unit_covered (select_keys p ks)) kss)"
proof (induction refs arbitrary: kss)
  case Nil
  then show ?case by simp
next
  case (Cons u refs)
  then obtain ks kss' where kss: "kss = ks # kss'" "get_unit p u = Inr (select_keys p ks)"
    "map (get_unit p) refs = map (\<lambda>ks. Inr (select_keys p ks)) kss'"
    by (cases kss) auto
  from Cons.IH[OF kss(3)] kss(1,2) show ?case by simp
qed

lemma distinct_map_filter_eq:
  "distinct (List.map_filter f xs) \<Longrightarrow> x \<in> set xs \<Longrightarrow> y \<in> set xs \<Longrightarrow>
     f x = Some v \<Longrightarrow> f y = Some v \<Longrightarrow> x = y"
proof (induction xs)
  case Nil
  then show ?case by simp
next
  case (Cons a xs)
  show ?case
  proof (cases "f a")
    case None
    with Cons show ?thesis by (auto simp: map_filter_simps)
  next
    case (Some w)
    with Cons.prems have d: "distinct (List.map_filter f xs)" "w \<notin> set (List.map_filter f xs)"
      by (simp_all add: map_filter_simps)
    have notin: "z \<in> set xs \<Longrightarrow> f z \<noteq> Some w" for z
      using d(2) by (auto simp: set_map_filter)
    from Cons.prems(2,3) consider "x = a" "y = a" | "x = a" "y \<in> set xs" | "x \<in> set xs" "y = a"
      | "x \<in> set xs" "y \<in> set xs" by auto
    then show ?thesis
    proof cases
      case 1
      then show ?thesis by simp
    next
      case 2
      with Some Cons.prems(4,5) notin[of y] show ?thesis by simp
    next
      case 3
      with Some Cons.prems(4,5) notin[of x] show ?thesis by simp
    next
      case 4
      from Cons.IH[OF d(1) 4 Cons.prems(4,5)] show ?thesis .
    qed
  qed
qed

section \<open>What the checker decides\<close>

lemma mem_grid_units:
  "ks \<in> set grid_units \<longleftrightarrow>
     (\<exists>i. 1 \<le> i \<and> i \<le> 9 \<and>
        (ks = map (\<lambda>c. cell_key i c) [1..9] \<or>
         ks = map (\<lambda>r. cell_key r i) [1..9] \<or>
         ks = concat (map (\<lambda>r. map (\<lambda>c. cell_key r c)
                  [3 * ((i - 1) mod 3) + 1..3 * ((i - 1) mod 3) + 3])
                  [3 * ((i - 1) div 3) + 1..3 * ((i - 1) div 3) + 3])))"
  unfolding grid_units_def set_append set_map Un_iff image_iff Bex_def in_digits by blast

lemma block_corner:
  "1 \<le> (b::int) \<Longrightarrow> b \<le> 9 \<Longrightarrow>
     1 \<le> 3 * ((b - 1) div 3) + 1 \<and> 3 * ((b - 1) div 3) + 1 \<le> 9 \<and>
     1 \<le> 3 * ((b - 1) mod 3) + 1 \<and> 3 * ((b - 1) mod 3) + 1 \<le> 9"
  by presburger

lemma grid_units_hit:
  assumes "ks \<in> set grid_units"
  shows "\<exists>k \<in> set ks. k \<in> set all_cell_refs"
proof -
  from assms obtain i where i: "1 \<le> i" "i \<le> 9" and
    ks: "ks = map (\<lambda>c. cell_key i c) [1..9] \<or>
         ks = map (\<lambda>r. cell_key r i) [1..9] \<or>
         ks = concat (map (\<lambda>r. map (\<lambda>c. cell_key r c)
                  [3 * ((i - 1) mod 3) + 1..3 * ((i - 1) mod 3) + 3])
                  [3 * ((i - 1) div 3) + 1..3 * ((i - 1) div 3) + 3])"
    unfolding mem_grid_units by blast
  from ks consider
      (R) "ks = map (\<lambda>c. cell_key i c) [1..9]"
    | (C) "ks = map (\<lambda>r. cell_key r i) [1..9]"
    | (B) "ks = concat (map (\<lambda>r. map (\<lambda>c. cell_key r c)
                  [3 * ((i - 1) mod 3) + 1..3 * ((i - 1) mod 3) + 3])
                  [3 * ((i - 1) div 3) + 1..3 * ((i - 1) div 3) + 3])"
    by blast
  then show ?thesis
  proof cases
    case R
    have "cell_key i 1 \<in> set ks" unfolding R mem_line by auto
    moreover have "cell_key i 1 \<in> set all_cell_refs" using i by simp
    ultimately show ?thesis ..
  next
    case C
    have "cell_key 1 i \<in> set ks" unfolding C mem_line by auto
    moreover have "cell_key 1 i \<in> set all_cell_refs" using i by simp
    ultimately show ?thesis ..
  next
    case B
    have "cell_key (3 * ((i - 1) div 3) + 1) (3 * ((i - 1) mod 3) + 1) \<in> set ks"
      unfolding B mem_grid_block by (intro exI conjI refl) simp_all
    moreover have "cell_key (3 * ((i - 1) div 3) + 1) (3 * ((i - 1) mod 3) + 1) \<in> set all_cell_refs"
      using block_corner[OF i] by simp
    ultimately show ?thesis ..
  qed
qed

lemma row_in_grid_units:
  "1 \<le> r \<Longrightarrow> r \<le> 9 \<Longrightarrow> map (\<lambda>c. cell_key r c) [1..9] \<in> set grid_units"
  unfolding mem_grid_units by blast

lemma check_strict_consistency_units:
  "check_strict_consistency p =
     Inr (\<forall>ks \<in> set grid_units. distinct (List.map_filter (solved_value p) ks))"
  unfolding check_strict_consistency_def strict_loop_units[OF unit_refs_units]
    seen_loop_iff solved_of_select_keys
  by (simp add: list_all_iff)

text \<open>A cell of the unit is solved with the digit, or is unsolved and has it as a
  candidate.\<close>

definition digit_covered :: "puzzle \<Rightarrow> string list \<Rightarrow> int \<Rightarrow> bool" where
  "digit_covered p ks d =
     list_ex (\<lambda>k. case map_of p k of
                     None \<Rightarrow> False
                   | Some cell \<Rightarrow> cvalue cell = Some d \<or> cvalue cell = None \<and> d \<in> set (candidates cell))
             ks"

lemma unit_covered_select_keys:
  "unit_covered (select_keys p ks) \<longleftrightarrow> (\<forall>d \<in> {1..9}. digit_covered p ks d)"
proof -
  have "(d \<in> set (List.map_filter cvalue (map snd (select_keys p ks))) \<or>
         list_ex (\<lambda>cell. cvalue cell = None \<and> d \<in> set (candidates cell)) (map snd (select_keys p ks)))
       \<longleftrightarrow> digit_covered p ks d" for d
    unfolding digit_covered_def list_ex_iff set_map_filter set_map set_select_keys
    by (auto split: option.splits)
  then show ?thesis
    by (simp add: unit_covered_def list_all_iff)
qed

lemma check_candidate_consistency_units:
  "check_candidate_consistency p =
     Inr (\<forall>ks \<in> set grid_units. \<forall>d \<in> {1..9}. digit_covered p ks d)"
  unfolding check_candidate_consistency_def candidate_loop_units[OF unit_refs_units]
    unit_covered_select_keys
  by (simp add: list_all_iff)

section \<open>Strict consistency\<close>

text \<open>Two different cells of the unit are solved with the same digit.\<close>

definition unit_conflict :: "puzzle \<Rightarrow> string list \<Rightarrow> bool" where
  "unit_conflict p ks =
     (\<exists>k1 \<in> set ks. \<exists>k2 \<in> set ks.
        k1 \<noteq> k2 \<and> solved_value p k1 \<noteq> None \<and> solved_value p k1 = solved_value p k2)"

lemma concat_map_product:
  "concat (map (\<lambda>r. map (\<lambda>c. g r c) cs) rs) = map (\<lambda>rc. g (fst rc) (snd rc)) (List.product rs cs)"
  by (induction rs) (simp_all add: comp_def)

lemma distinct_grid_block:
  "distinct (concat (map (\<lambda>r. map (\<lambda>c. cell_key r c) [a..b]) [a'..b']))"
  unfolding concat_map_product
  by (auto simp: distinct_map distinct_product inj_on_def dest: cell_key_inj)

lemma distinct_grid_units:
  assumes "ks \<in> set grid_units"
  shows "distinct ks"
proof -
  have "distinct (map (\<lambda>c. cell_key i c) [1..9])" "distinct (map (\<lambda>r. cell_key r i) [1..9])" for i
    by (auto simp: distinct_map inj_on_def dest: cell_key_inj simp del: upto_rec_numeral)
  with assms distinct_grid_block show ?thesis unfolding mem_grid_units by auto
qed

lemma distinct_map_filter_iff:
  assumes "distinct ks"
  shows "distinct (List.map_filter f ks) \<longleftrightarrow>
     \<not> (\<exists>k1 \<in> set ks. \<exists>k2 \<in> set ks. k1 \<noteq> k2 \<and> f k1 \<noteq> None \<and> f k1 = f k2)"
  using assms
proof (induction ks)
  case Nil
  show ?case by (simp add: map_filter_simps)
next
  case (Cons k ks)
  then have IH: "distinct (List.map_filter f ks) \<longleftrightarrow>
     \<not> (\<exists>k1 \<in> set ks. \<exists>k2 \<in> set ks. k1 \<noteq> k2 \<and> f k1 \<noteq> None \<and> f k1 = f k2)"
    and k: "k \<notin> set ks"
    by simp_all
  show ?case
  proof (cases "f k")
    case None
    have "List.map_filter f (k # ks) = List.map_filter f ks" by (simp add: map_filter_simps None)
    moreover have "(\<exists>k1 \<in> set (k # ks). \<exists>k2 \<in> set (k # ks). k1 \<noteq> k2 \<and> f k1 \<noteq> None \<and> f k1 = f k2) \<longleftrightarrow>
        (\<exists>k1 \<in> set ks. \<exists>k2 \<in> set ks. k1 \<noteq> k2 \<and> f k1 \<noteq> None \<and> f k1 = f k2)"
      using None by auto
    ultimately show ?thesis using IH by simp
  next
    case (Some v)
    have m: "List.map_filter f (k # ks) = v # List.map_filter f ks"
      by (simp add: map_filter_simps Some)
    have v: "v \<in> set (List.map_filter f ks) \<longleftrightarrow> (\<exists>k2 \<in> set ks. f k2 = Some v)"
      by (auto simp: set_map_filter)
    have "(\<exists>k1 \<in> set (k # ks). \<exists>k2 \<in> set (k # ks). k1 \<noteq> k2 \<and> f k1 \<noteq> None \<and> f k1 = f k2) \<longleftrightarrow>
        (\<exists>k2 \<in> set ks. f k2 = Some v) \<or>
        (\<exists>k1 \<in> set ks. \<exists>k2 \<in> set ks. k1 \<noteq> k2 \<and> f k1 \<noteq> None \<and> f k1 = f k2)"
      using Some k by (auto; metis)
    then show ?thesis unfolding m using IH v by auto
  qed
qed

lemma strict_unit_conflict:
  "check_strict_consistency p = Inr (\<forall>ks \<in> set grid_units. \<not> unit_conflict p ks)"
proof -
  have "distinct (List.map_filter (solved_value p) ks) \<longleftrightarrow> \<not> unit_conflict p ks"
    if "ks \<in> set grid_units" for ks
    unfolding unit_conflict_def using distinct_map_filter_iff[OF distinct_grid_units[OF that]] .
  then show ?thesis unfolding check_strict_consistency_units by simp
qed

section \<open>A solved grid\<close>

text \<open>A valid solution of the grid: each row is the row above shifted by three, and by
  one more from one band of three rows to the next.\<close>

definition solved_digit :: "int \<Rightarrow> int \<Rightarrow> int" where
  "solved_digit r c = (3 * ((r - 1) mod 3) + (r - 1) div 3 + (c - 1)) mod 9 + 1"

lemma mod9_cancel:
  assumes "0 \<le> a" "a \<le> 8" "0 \<le> a'" "a' \<le> 8" and "(a + k) mod 9 = (a' + k) mod 9"
  shows "a = (a'::int)"
proof -
  from assms(5) have "9 dvd (a + k) - (a' + k)" by (simp only: mod_eq_dvd_iff)
  then obtain q where "a - a' = 9 * q" by (auto elim: dvdE)
  with assms(1-4) show ?thesis by arith
qed

lemma divmod3:
  obtains q s where "(x::int) = 3 * q + s" "0 \<le> s" "s \<le> 2" "x div 3 = q" "x mod 3 = s"
proof
  show "x = 3 * (x div 3) + x mod 3" by simp
  show "0 \<le> x mod 3" by simp
  have "x mod 3 < 3" by simp
  then show "x mod 3 \<le> 2" by arith
qed (rule refl)+

lemma three_split:
  assumes "0 \<le> q" "q \<le> 2" "0 \<le> q'" "q' \<le> 2" and "3 * s + q = 3 * s' + (q'::int)"
  shows "s = s' \<and> q = q'"
proof -
  have "(3 * s + q) mod 3 = (3 * s' + q') mod 3" using assms(5) by simp
  then have "q mod 3 = q' mod 3" by simp
  with assms(1-4) have "q = q'" by simp
  with assms(5) show ?thesis by simp
qed

lemma div3_bounds: "0 \<le> (x::int) \<Longrightarrow> x \<le> 8 \<Longrightarrow> 0 \<le> x div 3 \<and> x div 3 \<le> 2"
  using zdiv_mono1[of x 8 3] by simp

lemma row_inj:
  assumes "1 \<le> c" "c \<le> 9" "1 \<le> c'" "c' \<le> 9"
    and "solved_digit r c = solved_digit r c'"
  shows "c = c'"
proof -
  define k where "k = 3 * ((r - 1) mod 3) + (r - 1) div 3"
  have "((c - 1) + k) mod 9 = ((c' - 1) + k) mod 9"
    using assms(5) by (simp add: solved_digit_def k_def add.commute add.left_commute)
  from mod9_cancel[OF _ _ _ _ this] assms(1-4) show ?thesis by simp
qed

lemma col_inj:
  assumes "1 \<le> r" "r \<le> 9" "1 \<le> r'" "r' \<le> 9"
    and "solved_digit r c = solved_digit r' c"
  shows "r = r'"
proof -
  obtain q s where a: "r - 1 = 3 * q + s" "0 \<le> s" "s \<le> 2" "(r - 1) div 3 = q" "(r - 1) mod 3 = s"
    by (rule divmod3)
  obtain q' s' where b: "r' - 1 = 3 * q' + s'" "0 \<le> s'" "s' \<le> 2" "(r' - 1) div 3 = q'"
    "(r' - 1) mod 3 = s'"
    by (rule divmod3)
  have "((3 * s + q) + (c - 1)) mod 9 = ((3 * s' + q') + (c - 1)) mod 9"
    using assms(5) by (simp add: solved_digit_def a(4,5) b(4,5))
  moreover have qb: "0 \<le> q" "q \<le> 2" using div3_bounds[of "r - 1"] assms(1,2) a(4) by simp_all
  moreover have qb': "0 \<le> q'" "q' \<le> 2" using div3_bounds[of "r' - 1"] assms(3,4) b(4) by simp_all
  moreover have "0 \<le> 3 * s + q" "3 * s + q \<le> 8" using a(2,3) qb by simp_all
  moreover have "0 \<le> 3 * s' + q'" "3 * s' + q' \<le> 8" using b(2,3) qb' by simp_all
  ultimately have "3 * s + q = 3 * s' + q'" using mod9_cancel by blast
  from three_split[OF qb qb' this] have "s = s'" "q = q'" by simp_all
  with a(1) b(1) show ?thesis by simp
qed

lemma block_inj:
  assumes "3 * m + 1 \<le> r" "r \<le> 3 * m + 3" "3 * m + 1 \<le> r'" "r' \<le> 3 * m + 3"
    and "3 * n + 1 \<le> c" "c \<le> 3 * n + 3" "3 * n + 1 \<le> c'" "c' \<le> 3 * n + 3"
    and "solved_digit r c = solved_digit r' c'"
  shows "r = r' \<and> c = c'"
proof -
  obtain q s where a: "r - 1 = 3 * q + s" "0 \<le> s" "s \<le> 2" "(r - 1) div 3 = q" "(r - 1) mod 3 = s"
    by (rule divmod3)
  obtain q' s' where b: "r' - 1 = 3 * q' + s'" "0 \<le> s'" "s' \<le> 2" "(r' - 1) div 3 = q'"
    "(r' - 1) mod 3 = s'"
    by (rule divmod3)
  have q: "q = m" "q' = m" using a(1-3) b(1-3) assms(1-4) by arith+
  have "((3 * s + (c - 1 - 3 * n)) + (m + 3 * n)) mod 9 =
        ((3 * s' + (c' - 1 - 3 * n)) + (m + 3 * n)) mod 9"
    using assms(9) by (simp add: solved_digit_def a(4,5) b(4,5) q algebra_simps)
  moreover have "0 \<le> 3 * s + (c - 1 - 3 * n)" "3 * s + (c - 1 - 3 * n) \<le> 8"
    using a(2,3) assms(5,6) by arith+
  moreover have "0 \<le> 3 * s' + (c' - 1 - 3 * n)" "3 * s' + (c' - 1 - 3 * n) \<le> 8"
    using b(2,3) assms(7,8) by arith+
  ultimately have "3 * s + (c - 1 - 3 * n) = 3 * s' + (c' - 1 - 3 * n)"
    using mod9_cancel by blast
  moreover have "0 \<le> c - 1 - 3 * n" "c - 1 - 3 * n \<le> 2" "0 \<le> c' - 1 - 3 * n" "c' - 1 - 3 * n \<le> 2"
    using assms(5-8) by simp_all
  ultimately have "s = s'" "c - 1 - 3 * n = c' - 1 - 3 * n" using three_split by blast+
  with a(1) b(1) q show ?thesis by simp
qed


definition solved_grid :: puzzle where
  "solved_grid =
     concat (map (\<lambda>r. map (\<lambda>c. (cell_key r c, \<lparr>cvalue = Some (solved_digit r c), candidates = []\<rparr>))
                          [1..9]) [1..9])"

lemma keys_solved_grid: "map fst solved_grid = all_cell_refs"
  by (simp add: solved_grid_def all_cell_refs_def map_concat comp_def del: upto_rec_numeral)

lemma is_puzzle_solved_grid: "is_puzzle solved_grid"
  by (simp add: is_puzzle_def keys_solved_grid distinct_all_cell_refs)

lemma map_of_solved_grid:
  assumes "1 \<le> r" "r \<le> 9" "1 \<le> c" "c \<le> 9"
  shows "map_of solved_grid (cell_key r c) = Some \<lparr>cvalue = Some (solved_digit r c), candidates = []\<rparr>"
proof -
  have "(cell_key r c, \<lparr>cvalue = Some (solved_digit r c), candidates = []\<rparr>) \<in> set solved_grid"
    using assms unfolding solved_grid_def
    by (auto simp del: upto_rec_numeral intro!: bexI[of _ r] image_eqI[of _ _ c])
  moreover have "distinct (map fst solved_grid)"
    by (simp add: keys_solved_grid distinct_all_cell_refs)
  ultimately show ?thesis by (rule map_of_is_SomeI[rotated])
qed

lemma solved_value_solved_grid:
  "1 \<le> r \<Longrightarrow> r \<le> 9 \<Longrightarrow> 1 \<le> c \<Longrightarrow> c \<le> 9 \<Longrightarrow>
     solved_value solved_grid (cell_key r c) = Some (solved_digit r c)"
  by (simp add: solved_value_def map_of_solved_grid)

lemma unsolved_count_solved_grid: "unsolved_count solved_grid = 0"
  by (simp add: unsolved_count_def solved_grid_def filter_concat filter_map comp_def
      del: upto_rec_numeral)

lemma block_index:
  assumes "1 \<le> (i::int)" "i \<le> 9"
  shows "0 \<le> (i - 1) div 3 \<and> (i - 1) div 3 \<le> 2 \<and> 0 \<le> (i - 1) mod 3 \<and> (i - 1) mod 3 \<le> 2"
proof -
  have "(i - 1) mod 3 < 3" by simp
  then have "(i - 1) mod 3 \<le> 2" by arith
  with div3_bounds[of "i - 1"] assms show ?thesis by simp
qed

lemma solved_grid_no_conflict:
  assumes "ks \<in> set grid_units"
  shows "\<not> unit_conflict solved_grid ks"
proof
  assume "unit_conflict solved_grid ks"
  then obtain k1 k2 where k: "k1 \<in> set ks" "k2 \<in> set ks" "k1 \<noteq> k2"
    and v: "solved_value solved_grid k1 = solved_value solved_grid k2"
    unfolding unit_conflict_def by blast
  from assms obtain i where i: "1 \<le> i" "i \<le> 9" and
    ks: "ks = map (\<lambda>c. cell_key i c) [1..9] \<or>
         ks = map (\<lambda>r. cell_key r i) [1..9] \<or>
         ks = concat (map (\<lambda>r. map (\<lambda>c. cell_key r c)
                  [3 * ((i - 1) mod 3) + 1..3 * ((i - 1) mod 3) + 3])
                  [3 * ((i - 1) div 3) + 1..3 * ((i - 1) div 3) + 3])"
    unfolding mem_grid_units by blast
  from ks consider
      (R) "ks = map (\<lambda>c. cell_key i c) [1..9]"
    | (C) "ks = map (\<lambda>r. cell_key r i) [1..9]"
    | (B) "ks = concat (map (\<lambda>r. map (\<lambda>c. cell_key r c)
                  [3 * ((i - 1) mod 3) + 1..3 * ((i - 1) mod 3) + 3])
                  [3 * ((i - 1) div 3) + 1..3 * ((i - 1) div 3) + 3])"
    by blast
  then show False
  proof cases
    case R
    from k(1,2) obtain c1 c2 where c: "1 \<le> c1" "c1 \<le> 9" "k1 = cell_key i c1"
      "1 \<le> c2" "c2 \<le> 9" "k2 = cell_key i c2"
      unfolding R mem_line by blast
    from v have "solved_digit i c1 = solved_digit i c2"
      unfolding c(3,6) using solved_value_solved_grid[OF i c(1,2)] solved_value_solved_grid[OF i c(4,5)]
      by simp
    from row_inj[OF c(1,2,4,5) this] k(3) c(3,6) show False by simp
  next
    case C
    from k(1,2) obtain r1 r2 where r: "1 \<le> r1" "r1 \<le> 9" "k1 = cell_key r1 i"
      "1 \<le> r2" "r2 \<le> 9" "k2 = cell_key r2 i"
      unfolding C mem_line by blast
    from v have "solved_digit r1 i = solved_digit r2 i"
      unfolding r(3,6) using solved_value_solved_grid[OF r(1,2) i] solved_value_solved_grid[OF r(4,5) i]
      by simp
    from col_inj[OF r(1,2,4,5) this] k(3) r(3,6) show False by simp
  next
    case B
    define m where "m = (i - 1) div 3"
    define n where "n = (i - 1) mod 3"
    have mn: "0 \<le> m" "m \<le> 2" "0 \<le> n" "n \<le> 2"
      using block_index[OF i] by (simp_all add: m_def n_def)
    from k(1,2) obtain r1 c1 r2 c2 where
      a: "3 * m + 1 \<le> r1" "r1 \<le> 3 * m + 3" "3 * n + 1 \<le> c1" "c1 \<le> 3 * n + 3"
        "k1 = cell_key r1 c1" and
      b: "3 * m + 1 \<le> r2" "r2 \<le> 3 * m + 3" "3 * n + 1 \<le> c2" "c2 \<le> 3 * n + 3"
        "k2 = cell_key r2 c2"
      unfolding B mem_grid_block m_def[symmetric] n_def[symmetric] by blast
    have in1: "1 \<le> r1" "r1 \<le> 9" "1 \<le> c1" "c1 \<le> 9" using a(1-4) mn by simp_all
    have in2: "1 \<le> r2" "r2 \<le> 9" "1 \<le> c2" "c2 \<le> 9" using b(1-4) mn by simp_all
    from v have "solved_digit r1 c1 = solved_digit r2 c2"
      unfolding a(5) b(5) using solved_value_solved_grid[OF in1] solved_value_solved_grid[OF in2]
      by simp
    from block_inj[OF a(1,2) b(1,2) a(3,4) b(3,4) this] k(3) a(5) b(5) show False by simp
  qed
qed

text \<open>The same grid with a second 5 in its first row, which is 1 to 9 from left to
  right.\<close>

definition two_fives :: puzzle where
  "two_fives = AList.update (cell_key 1 1) \<lparr>cvalue = Some 5, candidates = []\<rparr> solved_grid"

lemma solved_value_two_fives:
  "solved_value two_fives (cell_key 1 1) = Some 5" "solved_value two_fives (cell_key 1 5) = Some 5"
  using solved_value_solved_grid[of 1 5]
  by (simp_all add: two_fives_def solved_value_def update_conv' cell_key_eq solved_digit_def)

text \<open>
  Claim C7. \<^verbatim>\<open>check_strict_consistency\<close> returns, and it returns true exactly when none of
  the 27 units has two different cells solved with the same digit. In particular it returns
  false when two cells of a row are solved with the same digit.
\<close>

theorem check_strict_consistency_iff:
  "check_strict_consistency p = Inr (\<forall>ks \<in> set grid_units. \<not> unit_conflict p ks) \<and>
   (1 \<le> r \<and> r \<le> 9 \<and> 1 \<le> c1 \<and> c1 \<le> 9 \<and> 1 \<le> c2 \<and> c2 \<le> 9 \<and> c1 \<noteq> c2 \<and>
    solved_value p (cell_key r c1) = Some v \<and> solved_value p (cell_key r c2) = Some v \<longrightarrow>
      check_strict_consistency p = Inr False)"
proof -
  have "check_strict_consistency p = Inr False"
    if rc: "1 \<le> r" "r \<le> 9" "1 \<le> c1" "c1 \<le> 9" "1 \<le> c2" "c2 \<le> 9" "c1 \<noteq> c2"
      and v: "solved_value p (cell_key r c1) = Some v" "solved_value p (cell_key r c2) = Some v"
  proof -
    have "cell_key r c1 \<in> set (map (\<lambda>c. cell_key r c) [1..9])"
      "cell_key r c2 \<in> set (map (\<lambda>c. cell_key r c) [1..9])"
      unfolding mem_line using rc by blast+
    moreover have "cell_key r c1 \<noteq> cell_key r c2" using rc(7) by (simp add: cell_key_eq)
    ultimately have "unit_conflict p (map (\<lambda>c. cell_key r c) [1..9])"
      unfolding unit_conflict_def using v by (intro bexI[of _ "cell_key r c1"] bexI[of _ "cell_key r c2"]) simp_all
    with row_in_grid_units[OF rc(1,2)] show ?thesis unfolding strict_unit_conflict by blast
  qed
  with strict_unit_conflict[of p] show ?thesis by blast
qed

theorem check_strict_consistency_iff_witness:
  "is_puzzle solved_grid \<and> unsolved_count solved_grid = 0 \<and>
   check_strict_consistency solved_grid = Inr True \<and>
   check_strict_consistency two_fives = Inr False"
proof -
  have "check_strict_consistency solved_grid = Inr True"
    using check_strict_consistency_iff[of solved_grid 1 1 5 5, THEN conjunct1]
      solved_grid_no_conflict
    by simp
  moreover have "check_strict_consistency two_fives = Inr False"
    by (rule check_strict_consistency_iff[of two_fives 1 1 5 5, THEN conjunct2, rule_format])
       (simp add: solved_value_two_fives)
  ultimately show ?thesis
    by (simp add: is_puzzle_solved_grid unsolved_count_solved_grid)
qed

section \<open>Candidate coverage\<close>

lemma digit_covered_iff:
  "digit_covered p ks d \<longleftrightarrow>
     (\<exists>k \<in> set ks. solved_value p k = Some d) \<or>
     (\<exists>k \<in> set ks. \<exists>cell. map_of p k = Some cell \<and> cvalue cell = None \<and> d \<in> set (candidates cell))"
  unfolding digit_covered_def list_ex_iff solved_value_def
  by (auto split: option.splits)

text \<open>A full grid with no solved cell and every digit a candidate everywhere, except
  that 7 has been struck from the candidates of the cells of row 1.\<close>

definition no_seven_in_row_1 :: puzzle where
  "no_seven_in_row_1 =
     map (\<lambda>k. (k, \<lparr>cvalue = None,
                    candidates = (if k \<in> set (map (\<lambda>c. cell_key 1 c) [1..9])
                                  then [1, 2, 3, 4, 5, 6, 8, 9]
                                  else [1, 2, 3, 4, 5, 6, 7, 8, 9])\<rparr>))
         all_cell_refs"

lemma is_puzzle_no_seven_in_row_1: "is_puzzle no_seven_in_row_1"
  by (simp add: is_puzzle_def no_seven_in_row_1_def comp_def distinct_all_cell_refs
      del: upto_rec_numeral)

lemma row_1_not_covered:
  "\<not> digit_covered no_seven_in_row_1 (map (\<lambda>c. cell_key 1 c) [1..9]) 7"
proof -
  have "map_of no_seven_in_row_1 k = Some \<lparr>cvalue = None, candidates = [1, 2, 3, 4, 5, 6, 8, 9]\<rparr> \<or>
        map_of no_seven_in_row_1 k = None"
    if "k \<in> set (map (\<lambda>c. cell_key 1 c) [1..9])" for k
    unfolding no_seven_in_row_1_def map_of_tabulate using that by simp
  then show ?thesis
    unfolding digit_covered_iff solved_value_def by (auto split: option.splits) fastforce+
qed

lemma uniform_puzzle_covered:
  assumes "ks \<in> set grid_units" "d \<in> set cs"
  shows "digit_covered (uniform_puzzle cs) ks d"
proof -
  from grid_units_hit[OF assms(1)] obtain k where k: "k \<in> set ks" "k \<in> set all_cell_refs" by blast
  then have "map_of (uniform_puzzle cs) k = Some \<lparr>cvalue = None, candidates = cs\<rparr>"
    by (simp add: map_of_uniform_puzzle)
  with k(1) assms(2) show ?thesis unfolding digit_covered_iff by force
qed

text \<open>
  Claim C8. \<^verbatim>\<open>check_candidate_consistency\<close> returns, and it returns true exactly when in
  each of the 27 units every digit from 1 to 9 is the value of a solved cell of the unit or a
  candidate of an unsolved cell of the unit. In particular it returns false when no cell of
  row 1 is solved with 7 and no unsolved cell of row 1 has 7 as a candidate.
\<close>

theorem check_candidate_consistency_iff:
  "check_candidate_consistency p =
     Inr (\<forall>ks \<in> set grid_units. \<forall>d \<in> {1..9}.
            (\<exists>k \<in> set ks. solved_value p k = Some d) \<or>
            (\<exists>k \<in> set ks. \<exists>cell. map_of p k = Some cell \<and> cvalue cell = None \<and>
                d \<in> set (candidates cell))) \<and>
   (\<not> digit_covered p (map (\<lambda>c. cell_key 1 c) [1..9]) 7 \<longrightarrow>
      check_candidate_consistency p = Inr False)"
proof -
  have "check_candidate_consistency p = Inr False"
    if "\<not> digit_covered p (map (\<lambda>c. cell_key 1 c) [1..9]) 7"
  proof -
    have "map (\<lambda>c. cell_key 1 c) [1..9] \<in> set grid_units" by (rule row_in_grid_units) simp_all
    moreover have "(7::int) \<in> {1..9}" by simp
    ultimately have "\<not> (\<forall>ks \<in> set grid_units. \<forall>d \<in> {1..9}. digit_covered p ks d)"
      using that by blast
    then show ?thesis unfolding check_candidate_consistency_units by simp
  qed
  then show ?thesis
    unfolding check_candidate_consistency_units digit_covered_iff[symmetric] by blast
qed

theorem check_candidate_consistency_iff_witness:
  "check_candidate_consistency (uniform_puzzle [1, 2, 3, 4, 5, 6, 7, 8, 9]) = Inr True \<and>
   check_candidate_consistency no_seven_in_row_1 = Inr False"
proof -
  have "digit_covered (uniform_puzzle [1, 2, 3, 4, 5, 6, 7, 8, 9]) ks d"
    if "ks \<in> set grid_units" "d \<in> {1..9}" for ks d
    using uniform_puzzle_covered[OF that(1), of d "[1, 2, 3, 4, 5, 6, 7, 8, 9]"] that(2)
    by (simp add: upto_1_9[symmetric] del: upto_rec_numeral)
  then have "check_candidate_consistency (uniform_puzzle [1, 2, 3, 4, 5, 6, 7, 8, 9]) = Inr True"
    using check_candidate_consistency_iff[of "uniform_puzzle [1, 2, 3, 4, 5, 6, 7, 8, 9]", THEN conjunct1]
    unfolding digit_covered_iff[symmetric] by simp
  moreover have "check_candidate_consistency no_seven_in_row_1 = Inr False"
    by (rule check_candidate_consistency_iff[of no_seven_in_row_1, THEN conjunct2, rule_format])
       (rule row_1_not_covered)
  ultimately show ?thesis by simp
qed

end
